theory Spec2Isabelle
  imports Main "HOL-Library.Word" "HOL-Library.FSet"
begin

section \<open>Numbers\<close>

text \<open>
  The scorer computes with JavaScript numbers. Division never throws: a zero divisor
  gives an infinity or NaN, and NaN compares false with everything. The model keeps
  these special values and takes the finite values as exact rationals, so rounding
  and overflow of doubles are idealised away. The sign of a zero is not kept: every
  divisor of the scorer is a sum of integers or an array length, which is never the
  negative zero, and no product is divided again.
\<close>

datatype jsnum = Fin rat | PInf | NInf | NaN

text \<open>\<open>a / b\<close> for two finite numbers, the divisor's zero being the positive one.\<close>

definition js_div :: "rat \<Rightarrow> rat \<Rightarrow> jsnum" where
  "js_div a b =
     (if b \<noteq> 0 then Fin (a / b)
      else if a = 0 then NaN
      else if 0 < a then PInf else NInf)"

fun js_mul :: "jsnum \<Rightarrow> jsnum \<Rightarrow> jsnum" where
  "js_mul NaN _ = NaN"
| "js_mul _ NaN = NaN"
| "js_mul (Fin a) (Fin b) = Fin (a * b)"
| "js_mul (Fin a) PInf = (if a = 0 then NaN else if 0 < a then PInf else NInf)"
| "js_mul (Fin a) NInf = (if a = 0 then NaN else if 0 < a then NInf else PInf)"
| "js_mul PInf (Fin b) = (if b = 0 then NaN else if 0 < b then PInf else NInf)"
| "js_mul NInf (Fin b) = (if b = 0 then NaN else if 0 < b then NInf else PInf)"
| "js_mul PInf PInf = PInf"
| "js_mul PInf NInf = NInf"
| "js_mul NInf PInf = NInf"
| "js_mul NInf NInf = PInf"

fun js_sub :: "jsnum \<Rightarrow> jsnum \<Rightarrow> jsnum" where
  "js_sub NaN _ = NaN"
| "js_sub _ NaN = NaN"
| "js_sub (Fin a) (Fin b) = Fin (a - b)"
| "js_sub (Fin a) PInf = NInf"
| "js_sub (Fin a) NInf = PInf"
| "js_sub PInf (Fin b) = PInf"
| "js_sub NInf (Fin b) = NInf"
| "js_sub PInf PInf = NaN"
| "js_sub PInf NInf = PInf"
| "js_sub NInf PInf = NInf"
| "js_sub NInf NInf = NaN"

text \<open>\<open>x <= c\<close> against a finite constant.\<close>

fun js_le :: "jsnum \<Rightarrow> rat \<Rightarrow> bool" where
  "js_le (Fin a) c = (a \<le> c)"
| "js_le NInf c = True"
| "js_le PInf c = False"
| "js_le NaN c = False"

section \<open>Matcher results\<close>

text \<open>
  A fingerprint (\<open>Hash\<close>) is a 32-bit unsigned integer. \<open>DiffResults\<close> is what a
  matcher returns; \<open>commonTerms\<close> is a JavaScript \<open>Set\<close>, a finite set.
\<close>

type_synonym hash = "32 word"

record diff_results =
  match :: "hash list"
  cost :: int
  leftmostA :: int
  rightmostA :: int
  alignments :: int
  commonTerms :: "hash fset"

type_synonym downstream_pred = "hash \<Rightarrow> bool"

type_synonym matcher_fn =
  "hash list \<Rightarrow> hash list \<Rightarrow> downstream_pred \<Rightarrow> downstream_pred \<Rightarrow> diff_results"

section \<open>Tokenizer.score\<close>

text \<open>
  The locals of \<open>Tokenizer.score\<close>, in the order of the source. The debug log, which
  is the only reader of \<open>query\<close> and of \<open>downstreamWordFactor\<close>, is not modelled.
\<close>

definition matchFactor :: "diff_results \<Rightarrow> jsnum" where
  "matchFactor diff =
     (let l = rightmostA diff + 1 in
      if l > cost diff then js_div (of_int (l - cost diff)) (of_int l)
      else js_div 1 (of_int (l + cost diff)))"

definition commonFactor :: "diff_results \<Rightarrow> jsnum" where
  "commonFactor diff =
     js_div (of_nat (fcard (commonTerms diff))) (of_nat (length (match diff)))"

definition positionFactor :: "diff_results \<Rightarrow> jsnum" where
  "positionFactor diff =
     js_div (of_int (max (int (length (match diff)) - leftmostA diff) 0))
            (of_nat (length (match diff)))"

definition lengthFactor :: "diff_results \<Rightarrow> jsnum" where
  "lengthFactor diff = Fin (of_nat (length (match diff)))"

text \<open>The score before the two rejection tests.\<close>

definition base_score :: "diff_results \<Rightarrow> jsnum" where
  "base_score diff =
     js_mul (js_mul (js_mul (matchFactor diff) (commonFactor diff)) (positionFactor diff))
            (lengthFactor diff)"

definition commonDownstreamWords :: "downstream_pred \<Rightarrow> diff_results \<Rightarrow> hash fset" where
  "commonDownstreamWords isDownstreamTerm diff = ffilter isDownstreamTerm (commonTerms diff)"

definition downstreamWordFactor :: "downstream_pred \<Rightarrow> diff_results \<Rightarrow> jsnum" where
  "downstreamWordFactor isDownstreamTerm diff =
     js_div (of_int (int (fcard (commonTerms diff))
                     - int (fcard (commonDownstreamWords isDownstreamTerm diff))))
            (of_nat (fcard (commonTerms diff)))"

record scored =
  s_score :: jsnum
  s_length :: int

definition score ::
  "hash list \<Rightarrow> hash list \<Rightarrow> downstream_pred \<Rightarrow> diff_results \<Rightarrow> scored" where
  "score query prefix isDownstreamTerm diff =
     (let score0 = base_score diff;
          score1 = (if fcard (commonTerms diff) > 0 \<and>
                       fcard (commonTerms diff)
                         = fcard (commonDownstreamWords isDownstreamTerm diff) \<and>
                       fcard (commonTerms diff) \<noteq> length prefix
                    then Fin (- 1) else score0);
          score2 = (if js_le score1 (1 / 100) then Fin (- 1) else score1)
      in \<lparr> s_score = score2, s_length = rightmostA diff + 1 \<rparr>)"

section \<open>Collaborators outside the tokenizer\<close>

text \<open>
  The term model and the number parser are used through their interfaces only. A
  term model stems a term, hashes a stem and classifies fingerprints. A number
  parser appends to \<open>output\<close> the matches it finds at the start of its input
  (\<open>parse\<close> gives that list for the input's fingerprints) and exposes the
  fingerprints of its own terms.
\<close>

record term_model =
  stem :: "string \<Rightarrow> string"
  hashTerm :: "string \<Rightarrow> hash"
  isNumberHash :: "hash \<Rightarrow> bool"
  isTokenHash :: "hash \<Rightarrow> bool"

record number_match =
  nm_value :: int
  nm_length :: nat

record number_parser =
  parse :: "hash list \<Rightarrow> number_match list"
  ownHashedTerms :: "hash fset"

section \<open>Aliases, edges and the tokenizer's state\<close>

text \<open>
  \<open>Alias\<close> is what the lexicon receives. \<open>TokenizerAlias\<close> extends it
  (\<open>{...alias, terms, stemmed, hashes, isDownstreamTerm}\<close>); the record in between
  is the alias before the closure \<open>isDownstreamTerm\<close> is attached.
\<close>

record 'tok lexicon_alias =
  token :: 'tok
  "text" :: string
  matcher :: matcher_fn

record 'tok hashed_alias = "'tok lexicon_alias" +
  terms :: "string list"
  stemmed :: "string list"
  hashes :: "hash list"

record 'tok tokenizer_alias = "'tok hashed_alias" +
  isDownstreamTerm :: downstream_pred

text \<open>
  An edge of the lattice: \<open>label\<close> is an alias id, a number's value or \<open>-1\<close>.
\<close>

record edge =
  e_score :: jsnum
  e_length :: int
  label :: int
  isNumber :: bool

text \<open>
  The fields of \<open>Tokenizer\<close> (the logger apart). A JavaScript object used as a
  dictionary is a map; \<open>hashToText\<close> holds \<open>alias.stemmed[index]\<close>, which is
  \<open>undefined\<close> (\<open>None\<close>) when \<open>stemmed\<close> is shorter than \<open>hashes\<close>.
\<close>

record 'tok tokenizer =
  debugMode :: bool
  termModel :: term_model
  numberParser :: "number_parser option"
  aliases :: "'tok tokenizer_alias list"
  hashToText :: "hash \<rightharpoonup> string option"
  hashToFrequency :: "hash \<rightharpoonup> nat"
  postings :: "hash \<rightharpoonup> nat list"

definition tokenizer_new ::
  "term_model \<Rightarrow> number_parser option \<Rightarrow> bool \<Rightarrow> 'tok tokenizer" where
  "tokenizer_new tm np dbg =
     \<lparr> debugMode = dbg, termModel = tm, numberParser = np, aliases = [],
       hashToText = Map.empty, hashToFrequency = Map.empty, postings = Map.empty \<rparr>"

definition isNeverDownstreamTerm :: "hash \<Rightarrow> bool" where
  "isNeverDownstreamTerm h = False"

section \<open>Tokenizer.addItem\<close>

definition nth_opt :: "'a list \<Rightarrow> nat \<Rightarrow> 'a option" where
  "nth_opt xs i = (if i < length xs then Some (xs ! i) else None)"

text \<open>One round of the loop over \<open>alias.hashes.entries()\<close>.\<close>

definition addItem_term ::
  "nat \<Rightarrow> 'tok tokenizer_alias \<Rightarrow> 'tok tokenizer \<Rightarrow> nat \<times> hash \<Rightarrow> 'tok tokenizer" where
  "addItem_term ident a tk entry =
     (let index = fst entry; h = snd entry;
          tk1 = (if h \<in> dom (hashToText tk) then tk
                 else tk\<lparr> hashToText := (hashToText tk)(h \<mapsto> nth_opt (stemmed a) index) \<rparr>);
          tk2 = (case hashToFrequency tk1 h of
                   Some n \<Rightarrow> tk1\<lparr> hashToFrequency := (hashToFrequency tk1)(h \<mapsto> n + 1) \<rparr>
                 | None \<Rightarrow> tk1\<lparr> hashToFrequency := (hashToFrequency tk1)(h \<mapsto> 1) \<rparr>)
      in (case postings tk2 h of
            Some ids \<Rightarrow> tk2\<lparr> postings := (postings tk2)(h \<mapsto> ids @ [ident]) \<rparr>
          | None \<Rightarrow> tk2\<lparr> postings := (postings tk2)(h \<mapsto> [ident]) \<rparr>))"

definition addItem :: "'tok tokenizer \<Rightarrow> 'tok tokenizer_alias \<Rightarrow> 'tok tokenizer" where
  "addItem tk a =
     (let ident = length (aliases tk);
          tk0 = tk\<lparr> aliases := aliases tk @ [a] \<rparr>
      in foldl (addItem_term ident a) tk0 (enumerate 0 (hashes a)))"

text \<open>
  The postings list of a fingerprint (empty when it has none) and the number of
  entries of all postings lists.
\<close>

definition posting_list :: "(hash \<rightharpoonup> nat list) \<Rightarrow> hash \<Rightarrow> nat list" where
  "posting_list m h = (case m h of None \<Rightarrow> [] | Some ids \<Rightarrow> ids)"

definition total_postings :: "(hash \<rightharpoonup> nat list) \<Rightarrow> nat" where
  "total_postings m = (\<Sum>h\<in>dom m. length (posting_list m h))"

section \<open>Tokenizer.generateGraph\<close>

definition matchAndScore :: "'tok tokenizer \<Rightarrow> hash list \<Rightarrow> 'tok tokenizer_alias \<Rightarrow> scored" where
  "matchAndScore tk query a =
     (let prefix = hashes a;
          m = matcher a query prefix (isDownstreamTerm a) (isTokenHash (termModel tk))
      in score query prefix (isDownstreamTerm a) m)"

text \<open>
  \<open>this.aliases[item]\<close> is \<open>undefined\<close> for an id that is not in the array, and
  reading \<open>alias.hashes\<close> then throws a TypeError.
\<close>

datatype error = TypeError

text \<open>
  The edge \<open>{ ...r, label, isNumber }\<close> made from a result \<open>r\<close> of the scorer, and
  one round of \<open>items.map\<close>.
\<close>

definition scored_edge :: "scored \<Rightarrow> int \<Rightarrow> bool \<Rightarrow> edge" where
  "scored_edge r l n = \<lparr> e_score = s_score r, e_length = s_length r, label = l, isNumber = n \<rparr>"

definition alias_edge :: "'tok tokenizer \<Rightarrow> hash list \<Rightarrow> nat \<Rightarrow> error + edge" where
  "alias_edge tk tail item =
     (if item < length (aliases tk)
      then Inr (scored_edge (matchAndScore tk tail (aliases tk ! item)) (int item) False)
      else Inl TypeError)"

fun score_items ::
  "'tok tokenizer \<Rightarrow> hash list \<Rightarrow> nat list \<Rightarrow> error + edge list" where
  "score_items tk tail [] = Inr []"
| "score_items tk tail (item # items) =
     (case alias_edge tk tail item of
        Inl err \<Rightarrow> Inl err
      | Inr e \<Rightarrow> (case score_items tk tail items of
                   Inl err \<Rightarrow> Inl err
                 | Inr es \<Rightarrow> Inr (e # es)))"

definition alias_edges :: "'tok tokenizer \<Rightarrow> hash list \<Rightarrow> hash \<Rightarrow> error + edge list" where
  "alias_edges tk tail h =
     (case postings tk h of
        None \<Rightarrow> Inr []
      | Some items \<Rightarrow> score_items tk tail items)"

text \<open>The edge pushed for one entry of the number parser's output.\<close>

definition number_diff :: "hash list \<Rightarrow> nat \<Rightarrow> number_match \<Rightarrow> diff_results" where
  "number_diff hashed index v =
     (let m = take (nm_length v) (drop index hashed)
      in \<lparr> match = m, cost = 0, leftmostA = 0, rightmostA = int (nm_length v) - 1,
           alignments = int (nm_length v), commonTerms = fset_of_list m \<rparr>)"

definition number_edge :: "hash list \<Rightarrow> nat \<Rightarrow> number_match \<Rightarrow> edge" where
  "number_edge hashed index v =
     (let diff = number_diff hashed index v
      in scored_edge (score hashed (match diff) isNeverDownstreamTerm diff) (nm_value v) True)"

definition number_edges :: "'tok tokenizer \<Rightarrow> hash list \<Rightarrow> nat \<Rightarrow> edge list" where
  "number_edges tk hashed index =
     (case numberParser tk of
        None \<Rightarrow> []
      | Some np \<Rightarrow> map (number_edge hashed index) (parse np (drop index hashed)))"

text \<open>
  \<open>edges.sort((a, b) => b.score - a.score)\<close>: the sort is stable, and puts \<open>a\<close>
  after \<open>b\<close> only when the comparator is positive. It is written as an insertion
  sort. (With a NaN score the comparator is not a consistent order and JavaScript
  leaves the result to the implementation; the properties below do not depend on
  the order.)
\<close>

fun js_pos :: "jsnum \<Rightarrow> bool" where
  "js_pos (Fin a) = (0 < a)"
| "js_pos PInf = True"
| "js_pos NInf = False"
| "js_pos NaN = False"

definition edge_compare :: "edge \<Rightarrow> edge \<Rightarrow> jsnum" where
  "edge_compare a b = js_sub (e_score b) (e_score a)"

fun insert_edge :: "edge \<Rightarrow> edge list \<Rightarrow> edge list" where
  "insert_edge e [] = [e]"
| "insert_edge e (x # xs) =
     (if js_pos (edge_compare e x) then x # insert_edge e xs else e # x # xs)"

definition sort_edges :: "edge list \<Rightarrow> edge list" where
  "sort_edges es = foldr insert_edge es []"

text \<open>The body of the loop over \<open>hashed.entries()\<close>: the sorted edges of one position.\<close>

definition position_edges ::
  "'tok tokenizer \<Rightarrow> hash list \<Rightarrow> string list \<Rightarrow> nat \<times> hash \<Rightarrow> error + edge list" where
  "position_edges tk hashed stemmed_q entry =
     (let index = fst entry; h = snd entry;
          tail = drop index hashed
      in case alias_edges tk tail h of
           Inl err \<Rightarrow> Inl err
         | Inr scored \<Rightarrow> Inr (sort_edges (([] @ scored) @ number_edges tk hashed index)))"

text \<open>
  The loop threads the tokenizer, as a method does with \<open>this\<close>, and collects
  \<open>edgeLists\<close>: \<open>generateGraph_edgeLists\<close> is the method up to its last statement,
  and gives the array that is handed to the constructor of \<open>DynamicGraph\<close>.
\<close>

fun generateGraph_loop ::
  "'tok tokenizer \<Rightarrow> hash list \<Rightarrow> string list \<Rightarrow> (nat \<times> hash) list \<Rightarrow> edge list list
     \<Rightarrow> (error + edge list list) \<times> 'tok tokenizer" where
  "generateGraph_loop tk hashed stemmed_q [] edgeLists = (Inr edgeLists, tk)"
| "generateGraph_loop tk hashed stemmed_q (entry # entries) edgeLists =
     (case position_edges tk hashed stemmed_q entry of
        Inl err \<Rightarrow> (Inl err, tk)
      | Inr sorted_es \<Rightarrow> generateGraph_loop tk hashed stemmed_q entries (edgeLists @ [sorted_es]))"

definition generateGraph_edgeLists ::
  "'tok tokenizer \<Rightarrow> hash list \<Rightarrow> string list \<Rightarrow> (error + edge list list) \<times> 'tok tokenizer" where
  "generateGraph_edgeLists tk hashed stemmed_q =
     generateGraph_loop tk hashed stemmed_q (enumerate 0 hashed) []"

text \<open>The unknown edge: score 0, length 1, label \<open>-1\<close>, not a number.\<close>

definition unknown_edge :: edge where
  "unknown_edge = \<lparr> e_score = Fin 0, e_length = 1, label = - 1, isNumber = False \<rparr>"

text \<open>
  Modelled from the spec: the class \<open>DynamicGraph\<close>, whose constructor
  \<open>generateGraph\<close> calls, is not among the source files; only the test of the graph
  is. The specification has a default option of length 1 at every position of the
  lattice, the unknown edge with score 0, length 1 and label \<open>-1\<close>, so that a
  position whose edge list is empty still has one edge to leave by. The test of the
  graph agrees: its edge lists hold edges of length 2 and more only (none at all at
  the last position), and the expected paths take steps of length 1 and score 0
  from every position. The graph is given here by the edges it offers at each
  position: those of the constructor's list, in their order, and the unknown edge.
  That the unknown edge stands last is a choice of this model; no property below
  depends on it.
\<close>

definition DynamicGraph :: "edge list list \<Rightarrow> edge list list" where
  "DynamicGraph edgeLists = map (\<lambda>edges. edges @ [unknown_edge]) edgeLists"

text \<open>\<open>generateGraph\<close>: the edge lists, then \<open>new DynamicGraph(edgeLists)\<close>.\<close>

definition generateGraph ::
  "'tok tokenizer \<Rightarrow> hash list \<Rightarrow> string list \<Rightarrow> (error + edge list list) \<times> 'tok tokenizer" where
  "generateGraph tk hashed stemmed_q =
     (case generateGraph_edgeLists tk hashed stemmed_q of
        (Inl err, tk1) \<Rightarrow> (Inl err, tk1)
      | (Inr edgeLists, tk1) \<Rightarrow> (Inr (DynamicGraph edgeLists), tk1))"

text \<open>
  A walk through a graph: from position \<open>i\<close>, each edge is one that the graph
  offers at the position reached, has a positive length, and the last one ends at
  the end of the query.
\<close>

fun full_path :: "edge list list \<Rightarrow> nat \<Rightarrow> edge list \<Rightarrow> bool" where
  "full_path g i [] = (i = length g)"
| "full_path g i (e # es) =
     (i < length g \<and> e \<in> set (g ! i) \<and> 0 < e_length e
      \<and> full_path g (i + nat (e_length e)) es)"

text \<open>
  Every id in a postings list is a place of the aliases array: what \<open>addItem\<close>
  keeps true, and what \<open>generateGraph\<close> needs in order not to throw.
\<close>

definition ids_valid :: "'tok tokenizer \<Rightarrow> bool" where
  "ids_valid tk = (\<forall>h. \<forall>i\<in>set (posting_list (postings tk) h). i < length (aliases tk))"

section \<open>Lexicon and Domain\<close>

text \<open>
  \<open>alias.text.split(/\s+/)\<close>: the text is cut at every maximal run of white
  space; a run at the start or at the end leaves an empty first or last term, and
  the empty text gives the one term \<open>''\<close>. Texts are taken as ASCII, where the
  white space of \<open>\s\<close> is the space, tab, line feed, vertical tab, form feed and
  carriage return.
\<close>

definition is_ws :: "char \<Rightarrow> bool" where
  "is_ws c = (c \<in> {CHR '' '', CHR 0x09, CHR 0x0A, CHR 0x0B, CHR 0x0C, CHR 0x0D})"

function split_ws :: "string \<Rightarrow> string list" where
  "split_ws s =
     (if dropWhile (\<lambda>c. \<not> is_ws c) s = [] then [takeWhile (\<lambda>c. \<not> is_ws c) s]
      else takeWhile (\<lambda>c. \<not> is_ws c) s
             # split_ws (dropWhile is_ws (dropWhile (\<lambda>c. \<not> is_ws c) s)))"
  by pat_completeness auto
termination
proof (relation "measure length")
  show "wf (measure length)" by simp
next
  fix s :: string
  assume ne: "dropWhile (\<lambda>c. \<not> is_ws c) s \<noteq> []"
  define r where "r = dropWhile (\<lambda>c. \<not> is_ws c) s"
  from ne obtain c cs where r: "r = c # cs"
    by (cases r) (auto simp: r_def)
  have "is_ws c"
    using hd_dropWhile [of "\<lambda>c. \<not> is_ws c" s] ne r by (simp add: r_def)
  then have "dropWhile is_ws r = dropWhile is_ws cs"
    by (simp add: r)
  then have "length (dropWhile is_ws r) \<le> length cs"
    by (simp add: length_dropWhile_le)
  also have "\<dots> < length r" by (simp add: r)
  also have "\<dots> \<le> length s" by (simp add: r_def length_dropWhile_le)
  finally show "(dropWhile is_ws (dropWhile (\<lambda>c. \<not> is_ws c) s), s) \<in> measure length"
    by (simp add: r_def)
qed

declare split_ws.simps [simp del]

text \<open>
  A \<open>Domain\<close>. Its aliases are kept without the closure \<open>this.isDownstreamTerm\<close>:
  the closure reads the domain's fields when it is called, so it is the function
  \<open>domain_isDownstreamTerm\<close> of the domain's state, attached when the alias is
  handed to the tokenizer (\<open>domain_ingest\<close>), after \<open>addDownstreamTerms\<close> has
  assigned the set that the closure will read.
\<close>

record 'tok domain =
  d_termModel :: term_model
  tokenizerAliases :: "'tok hashed_alias list"
  ownTerms :: "hash fset"
  downstreamTerms :: "hash fset"
  forIngestion :: bool

record 'tok lexicon =
  lx_termModel :: term_model
  lx_numberParser :: number_parser
  domains :: "'tok domain list"

text \<open>
  The \<open>Lexicon\<close> constructor builds the default term model and the English number
  parser, which are parameters here.
\<close>

definition lexicon_new :: "term_model \<Rightarrow> number_parser \<Rightarrow> 'tok lexicon" where
  "lexicon_new tm np = \<lparr> lx_termModel = tm, lx_numberParser = np, domains = [] \<rparr>"

text \<open>One round of the loop of the \<open>Domain\<close> constructor.\<close>

definition hash_alias :: "term_model \<Rightarrow> 'tok lexicon_alias \<Rightarrow> 'tok hashed_alias" where
  "hash_alias tm a =
     (let ts = split_ws (text a);
          st = map (stem tm) ts;
          hs = map (hashTerm tm) st
      in \<lparr> token = token a, text = text a, matcher = matcher a,
           terms = ts, stemmed = st, hashes = hs \<rparr>)"

definition domain_add_alias ::
  "term_model \<Rightarrow> 'tok domain \<Rightarrow> 'tok lexicon_alias \<Rightarrow> 'tok domain" where
  "domain_add_alias tm d a =
     (let ta = hash_alias tm a
      in d\<lparr> tokenizerAliases := tokenizerAliases d @ [ta],
            ownTerms := foldl (\<lambda>own h. finsert h own) (ownTerms d) (hashes ta) \<rparr>)"

definition domain_new ::
  "'tok lexicon_alias list \<Rightarrow> term_model \<Rightarrow> bool \<Rightarrow> 'tok domain" where
  "domain_new as tm fi =
     foldl (domain_add_alias tm)
       \<lparr> d_termModel = tm, tokenizerAliases = [], ownTerms = {||},
         downstreamTerms = {||}, forIngestion = fi \<rparr> as"

definition addDomain :: "'tok lexicon \<Rightarrow> 'tok lexicon_alias list \<Rightarrow> bool \<Rightarrow> 'tok lexicon" where
  "addDomain lx as fi =
     lx\<lparr> domains := domains lx @ [domain_new as (lx_termModel lx) fi] \<rparr>"

text \<open>
  \<open>Domain.addDownstreamTerms\<close>. The test \<open>domain !== this\<close> compares objects, not
  contents: a domain is known by its place \<open>self\<close> in the lexicon's array. Adding
  every element of a set to another is their union.
\<close>

definition addDownstreamTerms ::
  "nat \<Rightarrow> 'tok domain \<Rightarrow> hash fset \<Rightarrow> 'tok domain list \<Rightarrow> 'tok domain" where
  "addDownstreamTerms self d numberTerms ds =
     (if forIngestion d
      then d\<lparr> downstreamTerms :=
               foldl (\<lambda>acc entry. if fst entry \<noteq> self then acc |\<union>| ownTerms (snd entry) else acc)
                     numberTerms (enumerate 0 ds) \<rparr>
      else d)"

definition domain_isDownstreamTerm :: "'tok domain \<Rightarrow> hash \<Rightarrow> bool" where
  "domain_isDownstreamTerm d h =
     (isTokenHash (d_termModel d) h \<or> isNumberHash (d_termModel d) h \<or> h |\<in>| downstreamTerms d)"

definition attach_closure :: "'tok domain \<Rightarrow> 'tok hashed_alias \<Rightarrow> 'tok tokenizer_alias" where
  "attach_closure d a =
     \<lparr> token = token a, text = text a, matcher = matcher a,
       terms = terms a, stemmed = stemmed a, hashes = hashes a,
       isDownstreamTerm = domain_isDownstreamTerm d \<rparr>"

definition domain_ingest :: "'tok domain \<Rightarrow> 'tok tokenizer \<Rightarrow> 'tok tokenizer" where
  "domain_ingest d tk =
     (if forIngestion d
      then foldl (\<lambda>t a. addItem t (attach_closure d a)) tk (tokenizerAliases d)
      else tk)"

text \<open>\<open>Lexicon.ingest\<close>: the loop runs over the places of \<open>this.domains\<close>.\<close>

fun lexicon_ingest_loop ::
  "'tok lexicon \<Rightarrow> 'tok tokenizer \<Rightarrow> nat list \<Rightarrow> 'tok lexicon \<times> 'tok tokenizer" where
  "lexicon_ingest_loop lx tk [] = (lx, tk)"
| "lexicon_ingest_loop lx tk (i # rest) =
     (let d = addDownstreamTerms i (domains lx ! i)
                (ownHashedTerms (lx_numberParser lx)) (domains lx);
          lx1 = lx\<lparr> domains := (domains lx)[i := d] \<rparr>;
          tk1 = domain_ingest d tk
      in lexicon_ingest_loop lx1 tk1 rest)"

definition lexicon_ingest :: "'tok lexicon \<Rightarrow> 'tok tokenizer \<Rightarrow> 'tok lexicon \<times> 'tok tokenizer" where
  "lexicon_ingest lx tk = lexicon_ingest_loop lx tk [0..<length (domains lx)]"

text \<open>
  The fingerprints of a list of aliases (the own terms of the domain built from
  them), and a lexicon after a series of \<open>addDomain\<close> calls, each with its aliases
  and its \<open>forIngestion\<close> flag.
\<close>

definition alias_hashes :: "term_model \<Rightarrow> 'tok lexicon_alias list \<Rightarrow> hash fset" where
  "alias_hashes tm as = fset_of_list (concat (map (\<lambda>a. hashes (hash_alias tm a)) as))"

definition addDomains ::
  "'tok lexicon \<Rightarrow> ('tok lexicon_alias list \<times> bool) list \<Rightarrow> 'tok lexicon" where
  "addDomains lx specs = foldl (\<lambda>l spec. addDomain l (fst spec) (snd spec)) lx specs"

section \<open>Example inputs\<close>

text \<open>Two matcher results: an exact match of two terms, and a match sharing no term.\<close>

definition diff_ex1 :: diff_results where
  "diff_ex1 = \<lparr> match = [1, 2], cost = 0, leftmostA = 0, rightmostA = 1,
                alignments = 2, commonTerms = {|1, 2|} \<rparr>"

definition diff_ex2 :: diff_results where
  "diff_ex2 = \<lparr> match = [7], cost = 1, leftmostA = 0, rightmostA = 0,
                alignments = 0, commonTerms = {||} \<rparr>"

text \<open>
  Stand-ins for the collaborators: a term model that leaves a term as it is and
  takes its length for fingerprint, and a matcher that reports the whole prefix as
  an exact match. The three aliases are those of the postings test, with the
  fingerprints 1 to 6 for the terms a to f.
\<close>

definition tm_ex :: term_model where
  "tm_ex = \<lparr> stem = (\<lambda>t. t), hashTerm = (\<lambda>t. of_nat (length t)),
             isNumberHash = (\<lambda>h. False), isTokenHash = (\<lambda>h. False) \<rparr>"

definition matcher_ex :: matcher_fn where
  "matcher_ex query prefix isD isT =
     \<lparr> match = prefix, cost = 0, leftmostA = 0, rightmostA = int (length prefix) - 1,
       alignments = int (length prefix), commonTerms = fset_of_list prefix \<rparr>"

definition alias_ex :: "string \<Rightarrow> hash list \<Rightarrow> string tokenizer_alias" where
  "alias_ex t hs =
     \<lparr> token = t, text = t, matcher = matcher_ex, terms = [], stemmed = [],
       hashes = hs, isDownstreamTerm = isNeverDownstreamTerm \<rparr>"

definition aliases_ex :: "string tokenizer_alias list" where
  "aliases_ex = [alias_ex ''a b c'' [1, 2, 3], alias_ex ''b c d'' [2, 3, 4],
                 alias_ex ''d e f'' [4, 5, 6]]"

definition tokenizer_ex :: "string tokenizer" where
  "tokenizer_ex = foldl addItem (tokenizer_new tm_ex None False) aliases_ex"

text \<open>
  A stand-in for the number parser, with the fingerprints 20 for "two" and 21 for
  "hundred": it knows "two", "two hundred" and "two hundred two".
\<close>

definition np_ex :: number_parser where
  "np_ex =
     \<lparr> parse = (\<lambda>input.
          if take 3 input = [20, 21, 20]
          then [\<lparr> nm_value = 2, nm_length = 1 \<rparr>, \<lparr> nm_value = 200, nm_length = 2 \<rparr>,
                \<lparr> nm_value = 202, nm_length = 3 \<rparr>]
          else if take 2 input = [20, 21]
          then [\<lparr> nm_value = 2, nm_length = 1 \<rparr>, \<lparr> nm_value = 200, nm_length = 2 \<rparr>]
          else if take 1 input = [20] then [\<lparr> nm_value = 2, nm_length = 1 \<rparr>]
          else []),
       ownHashedTerms = {|20, 21|} \<rparr>"

definition tokenizer_np_ex :: "string tokenizer" where
  "tokenizer_np_ex = foldl addItem (tokenizer_new tm_ex (Some np_ex) False) aliases_ex"

text \<open>
  An alias with the empty text, and two ingestion domains that share the term
  "bb" (fingerprint 2 under the stand-in term model).
\<close>

definition alias_empty_ex :: "string lexicon_alias" where
  "alias_empty_ex = \<lparr> token = ''nothing'', text = [], matcher = matcher_ex \<rparr>"

definition specs_ex :: "(string lexicon_alias list \<times> bool) list" where
  "specs_ex =
     [([\<lparr> token = ''A'', text = ''a bb'', matcher = matcher_ex \<rparr>], True),
      ([\<lparr> token = ''B'', text = ''ccc bb'', matcher = matcher_ex \<rparr>], True)]"

section \<open>Properties of the scorer\<close>

lemma fcard_ffilter_eq_iff:
  "fcard (ffilter P A) = fcard A \<longleftrightarrow> (\<forall>h. h |\<in>| A \<longrightarrow> P h)"
proof
  assume eq: "fcard (ffilter P A) = fcard A"
  have sub: "ffilter P A |\<subseteq>| A" by auto
  have "ffilter P A = A"
    using fcard_seteq [OF sub] eq by simp
  then show "\<forall>h. h |\<in>| A \<longrightarrow> P h"
    by (metis ffmember_filter)
next
  assume "\<forall>h. h |\<in>| A \<longrightarrow> P h"
  then have "ffilter P A = A" by auto
  then show "fcard (ffilter P A) = fcard A" by simp
qed

lemma base_score_ex1: "base_score diff_ex1 = Fin 2"
  by (simp add: base_score_def diff_ex1_def matchFactor_def commonFactor_def positionFactor_def lengthFactor_def js_div_def fcard_finsert_if)

lemma ffilter_fempty: "ffilter P {||} = {||}"
  by auto

subsection \<open>The base score\<close>

lemma base_score_finite:
  assumes m: "match diff \<noteq> []"
      and d: "if rightmostA diff + 1 > cost diff then rightmostA diff + 1 \<noteq> 0
              else rightmostA diff + 1 + cost diff \<noteq> 0"
  shows "base_score diff =
           Fin ((if rightmostA diff + 1 > cost diff
                 then of_int (rightmostA diff + 1 - cost diff) / of_int (rightmostA diff + 1)
                 else 1 / of_int (rightmostA diff + 1 + cost diff))
                * (of_nat (fcard (commonTerms diff)) / of_nat (length (match diff)))
                * (of_int (max (int (length (match diff)) - leftmostA diff) 0)
                     / of_nat (length (match diff)))
                * of_nat (length (match diff)))"
proof -
  have len: "(of_nat (length (match diff)) :: rat) \<noteq> 0"
    using m by simp
  show ?thesis
  proof (cases "rightmostA diff + 1 > cost diff")
    case True
    with d have "(of_int (rightmostA diff + 1) :: rat) \<noteq> 0" by simp
    with True len show ?thesis
      by (simp add: base_score_def matchFactor_def commonFactor_def positionFactor_def
          lengthFactor_def js_div_def Let_def)
  next
    case False
    with d have "rightmostA diff + 1 + cost diff \<noteq> 0" by simp
    then have "(of_int (rightmostA diff + 1 + cost diff) :: rat) \<noteq> 0"
      by (simp only: of_int_eq_0_iff) simp
    with False len show ?thesis
      by (simp add: base_score_def matchFactor_def commonFactor_def positionFactor_def
          lengthFactor_def js_div_def Let_def)
  qed
qed

lemma base_score_product:
  "base_score diff =
     js_mul (js_mul (js_mul
       (if rightmostA diff + 1 > cost diff
        then js_div (of_int (rightmostA diff + 1 - cost diff)) (of_int (rightmostA diff + 1))
        else js_div 1 (of_int (rightmostA diff + 1 + cost diff)))
       (js_div (of_nat (fcard (commonTerms diff))) (of_nat (length (match diff)))))
       (js_div (of_int (max (int (length (match diff)) - leftmostA diff) 0))
               (of_nat (length (match diff)))))
       (Fin (of_nat (length (match diff))))
   \<and> s_length (score query prefix isD diff) = rightmostA diff + 1
   \<and> (match diff \<noteq> [] \<and>
        (if rightmostA diff + 1 > cost diff then rightmostA diff + 1 \<noteq> 0
         else rightmostA diff + 1 + cost diff \<noteq> 0) \<longrightarrow>
      base_score diff =
        Fin ((if rightmostA diff + 1 > cost diff
              then of_int (rightmostA diff + 1 - cost diff) / of_int (rightmostA diff + 1)
              else 1 / of_int (rightmostA diff + 1 + cost diff))
             * (of_nat (fcard (commonTerms diff)) / of_nat (length (match diff)))
             * (of_int (max (int (length (match diff)) - leftmostA diff) 0)
                  / of_nat (length (match diff)))
             * of_nat (length (match diff))))"
proof (intro conjI impI)
  show "base_score diff =
     js_mul (js_mul (js_mul
       (if rightmostA diff + 1 > cost diff
        then js_div (of_int (rightmostA diff + 1 - cost diff)) (of_int (rightmostA diff + 1))
        else js_div 1 (of_int (rightmostA diff + 1 + cost diff)))
       (js_div (of_nat (fcard (commonTerms diff))) (of_nat (length (match diff)))))
       (js_div (of_int (max (int (length (match diff)) - leftmostA diff) 0))
               (of_nat (length (match diff)))))
       (Fin (of_nat (length (match diff))))"
    by (simp add: base_score_def matchFactor_def commonFactor_def positionFactor_def
        lengthFactor_def Let_def)
next
  show "s_length (score query prefix isD diff) = rightmostA diff + 1"
    by (simp add: score_def Let_def)
next
  assume "match diff \<noteq> [] \<and>
        (if rightmostA diff + 1 > cost diff then rightmostA diff + 1 \<noteq> 0
         else rightmostA diff + 1 + cost diff \<noteq> 0)"
  then show "base_score diff =
        Fin ((if rightmostA diff + 1 > cost diff
              then of_int (rightmostA diff + 1 - cost diff) / of_int (rightmostA diff + 1)
              else 1 / of_int (rightmostA diff + 1 + cost diff))
             * (of_nat (fcard (commonTerms diff)) / of_nat (length (match diff)))
             * (of_int (max (int (length (match diff)) - leftmostA diff) 0)
                  / of_nat (length (match diff)))
             * of_nat (length (match diff)))"
    using base_score_finite [of diff] by blast
qed

lemma score_of_product:
  "s_score (score query prefix isD diff) =
     (if (0 < fcard (commonTerms diff)
          \<and> fcard (commonTerms diff) = fcard (ffilter isD (commonTerms diff))
          \<and> fcard (commonTerms diff) \<noteq> length prefix)
         \<or> js_le
             (js_mul (js_mul (js_mul
               (if rightmostA diff + 1 > cost diff
                then js_div (of_int (rightmostA diff + 1 - cost diff))
                            (of_int (rightmostA diff + 1))
                else js_div 1 (of_int (rightmostA diff + 1 + cost diff)))
               (js_div (of_nat (fcard (commonTerms diff))) (of_nat (length (match diff)))))
               (js_div (of_int (max (int (length (match diff)) - leftmostA diff) 0))
                       (of_nat (length (match diff)))))
               (Fin (of_nat (length (match diff)))))
             (1 / 100)
      then Fin (- 1)
      else js_mul (js_mul (js_mul
               (if rightmostA diff + 1 > cost diff
                then js_div (of_int (rightmostA diff + 1 - cost diff))
                            (of_int (rightmostA diff + 1))
                else js_div 1 (of_int (rightmostA diff + 1 + cost diff)))
               (js_div (of_nat (fcard (commonTerms diff))) (of_nat (length (match diff)))))
               (js_div (of_int (max (int (length (match diff)) - leftmostA diff) 0))
                       (of_nat (length (match diff)))))
               (Fin (of_nat (length (match diff)))))"
proof -
  define P where "P = js_mul (js_mul (js_mul
               (if rightmostA diff + 1 > cost diff
                then js_div (of_int (rightmostA diff + 1 - cost diff))
                            (of_int (rightmostA diff + 1))
                else js_div 1 (of_int (rightmostA diff + 1 + cost diff)))
               (js_div (of_nat (fcard (commonTerms diff))) (of_nat (length (match diff)))))
               (js_div (of_int (max (int (length (match diff)) - leftmostA diff) 0))
                       (of_nat (length (match diff)))))
               (Fin (of_nat (length (match diff))))"
  have b: "base_score diff = P"
    by (simp add: P_def base_score_def matchFactor_def commonFactor_def positionFactor_def
        lengthFactor_def Let_def)
  define a where "a \<longleftrightarrow> 0 < fcard (commonTerms diff)
          \<and> fcard (commonTerms diff) = fcard (ffilter isD (commonTerms diff))
          \<and> fcard (commonTerms diff) \<noteq> length prefix"
  have "s_score (score query prefix isD diff) =
          (if js_le (if a then Fin (- 1) else P) (1 / 100) then Fin (- 1)
           else (if a then Fin (- 1) else P))"
    unfolding score_def Let_def b commonDownstreamWords_def a_def by simp
  then have "s_score (score query prefix isD diff) =
     (if a \<or> js_le P (1 / 100) then Fin (- 1) else P)"
    by (cases a) simp_all
  then show ?thesis unfolding P_def a_def .
qed

text \<open>
  C1. The score that \<open>Tokenizer.score\<close> computes before rejection is the product of
  the four factors, computed left to right with JavaScript's division: matchFactor
  is \<open>(L - cost) / L\<close> when \<open>L > cost\<close> and \<open>1 / (L + cost)\<close> otherwise, for
  \<open>L = rightmostA + 1\<close>; commonFactor is \<open>|commonTerms| / |match|\<close>; positionFactor
  is \<open>max (|match| - leftmostA) 0 / |match|\<close>; lengthFactor is \<open>|match|\<close>. The
  returned score is that product unless one of the two rejection tests of the
  source fires on it, and then \<open>-1\<close>; the returned length is \<open>rightmostA + 1\<close>.
  Where no divisor is zero the product is the same product of ordinary fractions.
\<close>

theorem score_base_formula:
  "(s_score (score query prefix isD diff) =
     (if (0 < fcard (commonTerms diff)
          \<and> fcard (commonTerms diff) = fcard (ffilter isD (commonTerms diff))
          \<and> fcard (commonTerms diff) \<noteq> length prefix)
         \<or> js_le
             (js_mul (js_mul (js_mul
               (if rightmostA diff + 1 > cost diff
                then js_div (of_int (rightmostA diff + 1 - cost diff))
                            (of_int (rightmostA diff + 1))
                else js_div 1 (of_int (rightmostA diff + 1 + cost diff)))
               (js_div (of_nat (fcard (commonTerms diff))) (of_nat (length (match diff)))))
               (js_div (of_int (max (int (length (match diff)) - leftmostA diff) 0))
                       (of_nat (length (match diff)))))
               (Fin (of_nat (length (match diff)))))
             (1 / 100)
      then Fin (- 1)
      else js_mul (js_mul (js_mul
               (if rightmostA diff + 1 > cost diff
                then js_div (of_int (rightmostA diff + 1 - cost diff))
                            (of_int (rightmostA diff + 1))
                else js_div 1 (of_int (rightmostA diff + 1 + cost diff)))
               (js_div (of_nat (fcard (commonTerms diff))) (of_nat (length (match diff)))))
               (js_div (of_int (max (int (length (match diff)) - leftmostA diff) 0))
                       (of_nat (length (match diff)))))
               (Fin (of_nat (length (match diff))))))
   \<and> base_score diff =
     js_mul (js_mul (js_mul
       (if rightmostA diff + 1 > cost diff
        then js_div (of_int (rightmostA diff + 1 - cost diff)) (of_int (rightmostA diff + 1))
        else js_div 1 (of_int (rightmostA diff + 1 + cost diff)))
       (js_div (of_nat (fcard (commonTerms diff))) (of_nat (length (match diff)))))
       (js_div (of_int (max (int (length (match diff)) - leftmostA diff) 0))
               (of_nat (length (match diff)))))
       (Fin (of_nat (length (match diff))))
   \<and> s_length (score query prefix isD diff) = rightmostA diff + 1
   \<and> (match diff \<noteq> [] \<and>
        (if rightmostA diff + 1 > cost diff then rightmostA diff + 1 \<noteq> 0
         else rightmostA diff + 1 + cost diff \<noteq> 0) \<longrightarrow>
      base_score diff =
        Fin ((if rightmostA diff + 1 > cost diff
              then of_int (rightmostA diff + 1 - cost diff) / of_int (rightmostA diff + 1)
              else 1 / of_int (rightmostA diff + 1 + cost diff))
             * (of_nat (fcard (commonTerms diff)) / of_nat (length (match diff)))
             * (of_int (max (int (length (match diff)) - leftmostA diff) 0)
                  / of_nat (length (match diff)))
             * of_nat (length (match diff))))"
  by (rule conjI [OF score_of_product base_score_product])

theorem score_base_formula_witness:
  "s_score (score [1, 2, 3] [1, 2] (\<lambda>h. False) diff_ex1) = Fin 2
   \<and> base_score diff_ex1 = Fin 2
   \<and> s_length (score [1, 2, 3] [1, 2] (\<lambda>h. False) diff_ex1) = 2"
  using score_base_formula [where diff = diff_ex1 and query = "[1, 2, 3]" and prefix = "[1, 2]"
      and isD = "\<lambda>h. False"]
  by (simp add: diff_ex1_def fcard_finsert_if fcard_fempty js_div_def)

subsection \<open>Rejection\<close>

text \<open>
  C2. The returned score is \<open>-1\<close> exactly when (a) there are common terms, every
  one of them is a downstream term and their number differs from the length of the
  prefix, or (b) the base score is at most \<open>0.01\<close>; otherwise it is the base score.
\<close>

theorem score_rejection:
  "s_score (score query prefix isD diff) =
     (if (fcard (commonTerms diff) > 0 \<and> (\<forall>h. h |\<in>| commonTerms diff \<longrightarrow> isD h)
            \<and> fcard (commonTerms diff) \<noteq> length prefix)
         \<or> js_le (base_score diff) (1 / 100)
      then Fin (- 1) else base_score diff)
   \<and> (s_score (score query prefix isD diff) = Fin (- 1) \<longleftrightarrow>
        (fcard (commonTerms diff) > 0 \<and> (\<forall>h. h |\<in>| commonTerms diff \<longrightarrow> isD h)
            \<and> fcard (commonTerms diff) \<noteq> length prefix)
         \<or> js_le (base_score diff) (1 / 100))"
proof -
  define a where "a \<longleftrightarrow> fcard (commonTerms diff) > 0
            \<and> (\<forall>h. h |\<in>| commonTerms diff \<longrightarrow> isD h)
            \<and> fcard (commonTerms diff) \<noteq> length prefix"
  define b where "b \<longleftrightarrow> js_le (base_score diff) (1 / 100)"
  have all: "fcard (commonTerms diff) = fcard (commonDownstreamWords isD diff)
               \<longleftrightarrow> (\<forall>h. h |\<in>| commonTerms diff \<longrightarrow> isD h)"
    using fcard_ffilter_eq_iff [of isD "commonTerms diff"]
    by (auto simp: commonDownstreamWords_def)
  have cond: "(fcard (commonTerms diff) > 0 \<and>
               fcard (commonTerms diff) = fcard (commonDownstreamWords isD diff) \<and>
               fcard (commonTerms diff) \<noteq> length prefix) \<longleftrightarrow> a"
    unfolding a_def all ..
  have sc: "s_score (score query prefix isD diff) =
              (let s1 = (if a then Fin (- 1) else base_score diff)
               in if js_le s1 (1 / 100) then Fin (- 1) else s1)"
    unfolding score_def Let_def cond by simp
  have eq: "s_score (score query prefix isD diff) =
              (if a \<or> b then Fin (- 1) else base_score diff)"
    unfolding sc b_def by (simp add: Let_def)
  have "base_score diff = Fin (- 1) \<Longrightarrow> b"
    unfolding b_def by simp
  then have iff: "s_score (score query prefix isD diff) = Fin (- 1) \<longleftrightarrow> a \<or> b"
    unfolding eq by (cases "a \<or> b") auto
  from eq iff show ?thesis
    unfolding a_def b_def by blast
qed

theorem score_rejection_witness:
  "s_score (score [1, 2, 3] [1, 2, 4] (\<lambda>h. True) diff_ex1) = Fin (- 1)
   \<and> s_score (score [1, 2, 3] [1, 2, 4] (\<lambda>h. False) diff_ex1) = Fin 2"
  using score_rejection [of "[1, 2, 3]" "[1, 2, 4]" "\<lambda>h. True" diff_ex1]
    score_rejection [of "[1, 2, 3]" "[1, 2, 4]" "\<lambda>h. False" diff_ex1] base_score_ex1
  by (auto simp: diff_ex1_def fcard_finsert_if fcard_fempty)

subsection \<open>No zero divisor for a non-empty match\<close>

text \<open>
  C10. When \<open>match\<close> is not empty and \<open>rightmostA\<close> is not negative, every divisor
  that the score depends on is at least 1 (\<open>|match|\<close>, and \<open>L\<close> or \<open>L + cost\<close>
  in the branch that divides by it), so each factor, the base score and the
  returned score are finite numbers. The ratio \<open>downstreamWordFactor\<close> divides by
  \<open>|commonTerms|\<close>; when that is zero the ratio is NaN, and the base score is 0 and
  the returned score \<open>-1\<close> all the same.
\<close>

theorem score_total:
  assumes m: "match diff \<noteq> []" and r: "rightmostA diff \<ge> 0"
  shows "length (match diff) \<ge> 1
       \<and> (if rightmostA diff + 1 > cost diff then rightmostA diff + 1 \<ge> 1
          else rightmostA diff + 1 + cost diff \<ge> 1)
       \<and> (\<exists>q. matchFactor diff = Fin q) \<and> (\<exists>q. commonFactor diff = Fin q)
       \<and> (\<exists>q. positionFactor diff = Fin q)
       \<and> (\<exists>q. base_score diff = Fin q)
       \<and> (\<exists>q. s_score (score query prefix isD diff) = Fin q)
       \<and> (commonTerms diff = {||} \<longrightarrow>
            downstreamWordFactor isD diff = NaN \<and> base_score diff = Fin 0
            \<and> s_score (score query prefix isD diff) = Fin (- 1))"
proof -
  have len: "length (match diff) \<ge> 1" using m by (cases "match diff") auto
  have dv: "if rightmostA diff + 1 > cost diff then rightmostA diff + 1 \<ge> 1
          else rightmostA diff + 1 + cost diff \<ge> 1"
    using r by auto
  have lenq: "(of_nat (length (match diff)) :: rat) \<noteq> 0" using m by simp
  have mf: "\<exists>q. matchFactor diff = Fin q"
  proof (cases "rightmostA diff + 1 > cost diff")
    case True
    from r have "rightmostA diff + 1 \<noteq> 0" by simp
    then have "(of_int (rightmostA diff + 1) :: rat) \<noteq> 0"
      by (simp only: of_int_eq_0_iff) simp
    with True show ?thesis by (simp add: matchFactor_def js_div_def Let_def)
  next
    case False
    with r have "rightmostA diff + 1 + cost diff \<noteq> 0" by simp
    then have "(of_int (rightmostA diff + 1 + cost diff) :: rat) \<noteq> 0"
      by (simp only: of_int_eq_0_iff) simp
    with False show ?thesis by (simp add: matchFactor_def js_div_def Let_def)
  qed
  have cf: "\<exists>q. commonFactor diff = Fin q"
    using lenq by (simp add: commonFactor_def js_div_def)
  have pf: "\<exists>q. positionFactor diff = Fin q"
    using lenq by (simp add: positionFactor_def js_div_def)
  from mf cf pf have bs: "\<exists>q. base_score diff = Fin q"
    by (auto simp: base_score_def lengthFactor_def)
  have sc: "\<exists>q. s_score (score query prefix isD diff) = Fin q"
    using bs by (auto simp: score_def Let_def)
  have empty: "commonTerms diff = {||} \<longrightarrow>
            downstreamWordFactor isD diff = NaN \<and> base_score diff = Fin 0
            \<and> s_score (score query prefix isD diff) = Fin (- 1)"
  proof
    assume e: "commonTerms diff = {||}"
    have c0: "commonFactor diff = Fin 0"
      using lenq e by (simp add: commonFactor_def js_div_def)
    from mf obtain a where a: "matchFactor diff = Fin a" by blast
    from pf obtain b where b: "positionFactor diff = Fin b" by blast
    have b0: "base_score diff = Fin 0"
      by (simp add: base_score_def a b c0 lengthFactor_def)
    have df: "downstreamWordFactor isD diff = NaN"
      using e by (simp add: downstreamWordFactor_def commonDownstreamWords_def js_div_def
          fcard_fempty ffilter_fempty)
    have "s_score (score query prefix isD diff) = Fin (- 1)"
      using e b0 by (simp add: score_def Let_def fcard_fempty)
    with b0 df show "downstreamWordFactor isD diff = NaN \<and> base_score diff = Fin 0
            \<and> s_score (score query prefix isD diff) = Fin (- 1)" by simp
  qed
  from len dv mf cf pf bs sc empty show ?thesis by blast
qed


theorem score_total_witness:
  "match diff_ex2 \<noteq> [] \<and> rightmostA diff_ex2 \<ge> 0 \<and> commonTerms diff_ex2 = {||}
   \<and> downstreamWordFactor (\<lambda>h. True) diff_ex2 = NaN
   \<and> s_score (score [7, 8] [7, 9] (\<lambda>h. True) diff_ex2) = Fin (- 1)"
proof -
  have m: "match diff_ex2 \<noteq> []" by (simp add: diff_ex2_def)
  have r: "rightmostA diff_ex2 \<ge> 0" by (simp add: diff_ex2_def)
  have e: "commonTerms diff_ex2 = {||}" by (simp add: diff_ex2_def)
  from score_total [OF m r, of "[7, 8]" "[7, 9]" "\<lambda>h. True"] m r e show ?thesis
    by blast
qed

section \<open>Properties of the inverted index\<close>

lemma postings_addItem_term:
  "postings (addItem_term ident a tk (i, h)) =
     (postings tk)(h \<mapsto> posting_list (postings tk) h @ [ident])"
  by (simp add: addItem_term_def Let_def posting_list_def split: option.splits)

lemma aliases_addItem_term:
  "aliases (addItem_term ident a tk e) = aliases tk"
  by (simp add: addItem_term_def Let_def split: option.splits)

lemma posting_list_upd:
  "posting_list (m(h \<mapsto> v)) k = (if k = h then v else posting_list m k)"
  by (simp add: posting_list_def)

lemma total_postings_update:
  assumes fin: "finite (dom m)"
  shows "total_postings (m(h \<mapsto> posting_list m h @ [x])) = total_postings m + 1"
proof -
  define v where "v = posting_list m h @ [x]"
  have lv: "length v = length (posting_list m h) + 1" by (simp add: v_def)
  show ?thesis
    unfolding v_def [symmetric]
  proof (cases "h \<in> dom m")
    case True
    have d: "dom (m(h \<mapsto> v)) = dom m" using True by auto
    have rest: "(\<Sum>k\<in>dom m - {h}. length (posting_list (m(h \<mapsto> v)) k))
              = (\<Sum>k\<in>dom m - {h}. length (posting_list m k))"
      by (rule sum.cong) (auto simp: posting_list_upd)
    have "total_postings (m(h \<mapsto> v)) = length (posting_list (m(h \<mapsto> v)) h)
            + (\<Sum>k\<in>dom m - {h}. length (posting_list (m(h \<mapsto> v)) k))"
      unfolding total_postings_def d by (rule sum.remove [OF fin True])
    also have "\<dots> = length (posting_list m h) + 1
            + (\<Sum>k\<in>dom m - {h}. length (posting_list m k))"
      by (simp add: rest posting_list_upd lv)
    also have "\<dots> = total_postings m + 1"
      unfolding total_postings_def
      using sum.remove [OF fin True, of "\<lambda>k. length (posting_list m k)"] by simp
    finally show "total_postings (m(h \<mapsto> v)) = total_postings m + 1" .
  next
    case False
    have d: "dom (m(h \<mapsto> v)) = insert h (dom m)" by auto
    have e: "posting_list m h = []"
      using False by (auto simp: posting_list_def split: option.splits)
    have rest: "(\<Sum>k\<in>dom m. length (posting_list (m(h \<mapsto> v)) k))
              = (\<Sum>k\<in>dom m. length (posting_list m k))"
      by (rule sum.cong) (use False in \<open>auto simp: posting_list_upd\<close>)
    have "total_postings (m(h \<mapsto> v)) = length (posting_list (m(h \<mapsto> v)) h)
            + (\<Sum>k\<in>dom m. length (posting_list (m(h \<mapsto> v)) k))"
      unfolding total_postings_def d using fin False by simp
    also have "\<dots> = length v + total_postings m"
      unfolding rest total_postings_def by (simp add: posting_list_upd)
    also have "\<dots> = 1 + total_postings m"
      by (simp add: lv e)
    finally show "total_postings (m(h \<mapsto> v)) = total_postings m + 1" by simp
  qed
qed

lemma addItem_loop_aliases:
  "aliases (foldl (addItem_term ident a) tk es) = aliases tk"
  by (induction es arbitrary: tk) (simp_all add: aliases_addItem_term)

lemma addItem_loop_postings:
  "posting_list (postings (foldl (addItem_term ident a) tk es)) k
     = posting_list (postings tk) k @ replicate (count_list (map snd es) k) ident"
proof (induction es arbitrary: tk)
  case Nil
  show ?case by simp
next
  case (Cons e es)
  obtain i h where e: "e = (i, h)" by (cases e)
  have "posting_list (postings (addItem_term ident a tk (i, h))) k =
      (if k = h then posting_list (postings tk) h @ [ident] else posting_list (postings tk) k)"
    by (simp add: postings_addItem_term posting_list_upd)
  with Cons.IH [of "addItem_term ident a tk (i, h)"] show ?case
    by (simp add: e replicate_app_Cons_same)
qed

lemma addItem_loop_total:
  "finite (dom (postings tk)) \<Longrightarrow>
     finite (dom (postings (foldl (addItem_term ident a) tk es)))
     \<and> total_postings (postings (foldl (addItem_term ident a) tk es))
         = total_postings (postings tk) + length es"
proof (induction es arbitrary: tk)
  case Nil
  then show ?case by simp
next
  case (Cons e es)
  obtain i h where e: "e = (i, h)" by (cases e)
  have f1: "finite (dom (postings (addItem_term ident a tk (i, h))))"
    using Cons.prems by (simp add: postings_addItem_term)
  have t1: "total_postings (postings (addItem_term ident a tk (i, h)))
              = total_postings (postings tk) + 1"
    using Cons.prems by (simp add: postings_addItem_term total_postings_update)
  from Cons.IH [OF f1] show ?case
    by (simp add: e t1)
qed

lemma count_list_replicate:
  "count_list (replicate n x) y = (if x = y then n else 0)"
  by (induction n) auto

lemma addItem_aliases: "aliases (addItem tk a) = aliases tk @ [a]"
  by (simp add: addItem_def Let_def addItem_loop_aliases)

lemma addItem_posting_list:
  "posting_list (postings (addItem tk a)) k
     = posting_list (postings tk) k @ replicate (count_list (hashes a) k) (length (aliases tk))"
  by (simp add: addItem_def Let_def addItem_loop_postings)

lemma addItem_total:
  assumes "finite (dom (postings tk))"
  shows "finite (dom (postings (addItem tk a)))
     \<and> total_postings (postings (addItem tk a)) = total_postings (postings tk) + length (hashes a)"
proof -
  have "finite (dom (postings (tk\<lparr>aliases := aliases tk @ [a]\<rparr>)))"
    using assms by simp
  from addItem_loop_total [OF this, of "length (aliases tk)" a "enumerate 0 (hashes a)"]
  show ?thesis by (simp add: addItem_def Let_def)
qed

lemma addItems_invariant:
  "aliases (foldl addItem (tokenizer_new tm np dbg) as) = as
   \<and> finite (dom (postings (foldl addItem (tokenizer_new tm np dbg) as)))
   \<and> total_postings (postings (foldl addItem (tokenizer_new tm np dbg) as))
        = sum_list (map (\<lambda>a. length (hashes a)) as)
   \<and> (\<forall>h i. count_list (posting_list (postings (foldl addItem (tokenizer_new tm np dbg) as)) h) i
        = (if i < length as then count_list (hashes (as ! i)) h else 0))"
proof (induction as rule: rev_induct)
  case Nil
  show ?case
    by (simp add: tokenizer_new_def total_postings_def posting_list_def)
next
  case (snoc a as)
  let ?tk = "foldl addItem (tokenizer_new tm np dbg) as"
  from snoc.IH have al: "aliases ?tk = as"
    and fin: "finite (dom (postings ?tk))"
    and tot: "total_postings (postings ?tk) = sum_list (map (\<lambda>a. length (hashes a)) as)"
    and cnt: "\<And>h i. count_list (posting_list (postings ?tk) h) i
        = (if i < length as then count_list (hashes (as ! i)) h else 0)"
    by blast+
  have step: "foldl addItem (tokenizer_new tm np dbg) (as @ [a]) = addItem ?tk a" by simp
  have c: "\<And>h i. count_list (posting_list (postings (addItem ?tk a)) h) i
        = (if i < length (as @ [a]) then count_list (hashes ((as @ [a]) ! i)) h else 0)"
    by (auto simp: addItem_posting_list cnt al nth_append count_list_replicate)
  show ?case
    unfolding step using addItem_total [OF fin, of a] c
    by (simp add: addItem_aliases al tot)
qed

text \<open>
  C6. After any sequence of \<open>addItem\<close> calls on a new tokenizer, the aliases array
  is the sequence of the aliases added, the id of an alias being its place; the
  postings list of a fingerprint \<open>h\<close> holds the id of an alias as many times as
  \<open>h\<close> occurs in the alias's hashes (so at least once when it occurs); and the
  postings lists together have as many entries as the aliases have hashes.
\<close>

theorem addItem_postings_invariant:
  "aliases (foldl addItem (tokenizer_new tm np dbg) as) = as
   \<and> (\<forall>i<length as. \<forall>h.
         count_list (posting_list (postings (foldl addItem (tokenizer_new tm np dbg) as)) h) i
           = count_list (hashes (as ! i)) h)
   \<and> (\<forall>i<length as. \<forall>h\<in>set (hashes (as ! i)).
         i \<in> set (posting_list (postings (foldl addItem (tokenizer_new tm np dbg) as)) h))
   \<and> total_postings (postings (foldl addItem (tokenizer_new tm np dbg) as))
        = sum_list (map (\<lambda>a. length (hashes a)) as)"
proof -
  let ?tk = "foldl addItem (tokenizer_new tm np dbg) as"
  note inv = addItems_invariant [of tm np dbg as]
  have cnt: "\<And>i h. i < length as \<Longrightarrow>
      count_list (posting_list (postings ?tk) h) i = count_list (hashes (as ! i)) h"
    using inv by simp
  have mem: "\<And>i h. i < length as \<Longrightarrow> h \<in> set (hashes (as ! i)) \<Longrightarrow>
      i \<in> set (posting_list (postings ?tk) h)"
  proof -
    fix i h assume i: "i < length as" and h: "h \<in> set (hashes (as ! i))"
    show "i \<in> set (posting_list (postings ?tk) h)"
      using cnt [OF i, of h] h by (metis count_list_0_iff)
  qed
  from inv cnt mem show ?thesis by blast
qed

theorem addItem_postings_invariant_witness:
  "(1::nat) < length aliases_ex \<and> 2 \<in> set (hashes (aliases_ex ! 1))
   \<and> count_list (posting_list (postings tokenizer_ex) 2) 1 = 1
   \<and> 1 \<in> set (posting_list (postings tokenizer_ex) 2)
   \<and> total_postings (postings tokenizer_ex) = 9"
proof -
  note t = addItem_postings_invariant [of tm_ex None False aliases_ex, folded tokenizer_ex_def]
  have l: "(1::nat) < length aliases_ex" by (simp add: aliases_ex_def)
  have h: "2 \<in> set (hashes (aliases_ex ! 1))" by (simp add: aliases_ex_def alias_ex_def)
  have c: "count_list (posting_list (postings tokenizer_ex) 2) 1 = 1"
    using t [THEN conjunct2, THEN conjunct1, rule_format, OF l, of 2]
    by (simp add: aliases_ex_def alias_ex_def)
  have m: "1 \<in> set (posting_list (postings tokenizer_ex) 2)"
    using t [THEN conjunct2, THEN conjunct2, THEN conjunct1, rule_format, OF l h] .
  have s: "total_postings (postings tokenizer_ex) = 9"
    using t [THEN conjunct2, THEN conjunct2, THEN conjunct2]
    by (simp add: aliases_ex_def alias_ex_def)
  from l h c m s show ?thesis by blast
qed

section \<open>Properties of the lattice construction\<close>

lemma ids_valid_addItems: "ids_valid (foldl addItem (tokenizer_new tm np dbg) as)"
proof -
  let ?tk = "foldl addItem (tokenizer_new tm np dbg) as"
  note inv = addItems_invariant [of tm np dbg as]
  have "i < length as" if "i \<in> set (posting_list (postings ?tk) h)" for i h
  proof (rule ccontr)
    assume "\<not> i < length as"
    with inv have "count_list (posting_list (postings ?tk) h) i = 0" by simp
    with that show False by (simp add: count_list_0_iff)
  qed
  with inv show ?thesis by (simp add: ids_valid_def)
qed

lemma generateGraph_loop_frame:
  "snd (generateGraph_loop tk hashed st es acc) = tk"
  by (induction es arbitrary: acc) (simp_all split: sum.splits)

lemma score_items_valid:
  "\<forall>i\<in>set items. i < length (aliases tk) \<Longrightarrow>
     score_items tk tail items =
       Inr (map (\<lambda>item. scored_edge (matchAndScore tk tail (aliases tk ! item)) (int item) False)
              items)"
  by (induction items) (simp_all add: alias_edge_def)

lemma alias_edges_valid:
  assumes "ids_valid tk"
  shows "alias_edges tk tail h =
       Inr (map (\<lambda>item. scored_edge (matchAndScore tk tail (aliases tk ! item)) (int item) False)
              (posting_list (postings tk) h))"
proof (cases "postings tk h")
  case None
  then show ?thesis by (simp add: alias_edges_def posting_list_def)
next
  case (Some items)
  then have pl: "posting_list (postings tk) h = items" by (simp add: posting_list_def)
  with assms have "\<forall>i\<in>set items. i < length (aliases tk)"
    by (auto simp: ids_valid_def)
  from score_items_valid [OF this] Some pl show ?thesis
    by (simp add: alias_edges_def)
qed

lemma position_edges_valid:
  assumes "ids_valid tk"
  shows "position_edges tk hashed st (i, h) =
       Inr (sort_edges
         (map (\<lambda>item. scored_edge (matchAndScore tk (drop i hashed) (aliases tk ! item))
                        (int item) False)
              (posting_list (postings tk) h)
          @ number_edges tk hashed i))"
  by (simp add: position_edges_def Let_def alias_edges_valid [OF assms])

lemma generateGraph_loop_Inr:
  "\<forall>e\<in>set es. position_edges tk hashed st e = Inr (f e) \<Longrightarrow>
     generateGraph_loop tk hashed st es acc = (Inr (acc @ map f es), tk)"
  by (induction es arbitrary: acc) simp_all

lemma edgeLists_valid:
  assumes "ids_valid tk"
  shows "generateGraph_edgeLists tk hashed st =
       (Inr (map (\<lambda>e. sort_edges
                (map (\<lambda>item. scored_edge
                        (matchAndScore tk (drop (fst e) hashed) (aliases tk ! item))
                        (int item) False)
                   (posting_list (postings tk) (snd e))
                 @ number_edges tk hashed (fst e)))
              (enumerate 0 hashed)), tk)"
proof -
  have "\<forall>e\<in>set (enumerate 0 hashed). position_edges tk hashed st e =
      Inr (sort_edges
         (map (\<lambda>item. scored_edge (matchAndScore tk (drop (fst e) hashed) (aliases tk ! item))
                        (int item) False)
              (posting_list (postings tk) (snd e))
          @ number_edges tk hashed (fst e)))"
  proof
    fix e assume "e \<in> set (enumerate 0 hashed)"
    show "position_edges tk hashed st e =
      Inr (sort_edges
         (map (\<lambda>item. scored_edge (matchAndScore tk (drop (fst e) hashed) (aliases tk ! item))
                        (int item) False)
              (posting_list (postings tk) (snd e))
          @ number_edges tk hashed (fst e)))"
      using position_edges_valid [OF assms, of hashed st "fst e" "snd e"] by simp
  qed
  from generateGraph_loop_Inr [OF this, of "[]"] show ?thesis
    by (simp add: generateGraph_edgeLists_def)
qed

lemma sort_edges_Nil: "sort_edges [] = []"
  by (simp add: sort_edges_def)

lemma numberParser_addItem_term:
  "numberParser (addItem_term ident a tk e) = numberParser tk"
  by (simp add: addItem_term_def Let_def split: option.splits)

lemma numberParser_addItem: "numberParser (addItem tk a) = numberParser tk"
proof -
  have "numberParser (foldl (addItem_term ident a) t es) = numberParser t" for ident t es
    by (induction es arbitrary: t) (simp_all add: numberParser_addItem_term)
  then show ?thesis by (simp add: addItem_def Let_def)
qed

lemma numberParser_addItems: "numberParser (foldl addItem tk as) = numberParser tk"
  by (induction as arbitrary: tk) (simp_all add: numberParser_addItem)

lemma posting_list_unknown:
  assumes "\<forall>a\<in>set as. h \<notin> set (hashes a)"
  shows "posting_list (postings (foldl addItem (tokenizer_new tm np dbg) as)) h = []"
proof -
  let ?pl = "posting_list (postings (foldl addItem (tokenizer_new tm np dbg) as)) h"
  note inv = addItems_invariant [of tm np dbg as]
  have "count_list ?pl i = 0" for i
  proof (cases "i < length as")
    case True
    then have "as ! i \<in> set as" by simp
    with assms have "h \<notin> set (hashes (as ! i))" by blast
    with inv True show ?thesis by simp
  next
    case False
    with inv show ?thesis by simp
  qed
  then have "set ?pl = {}"
    by (metis count_list_0_iff equals0I)
  then show ?thesis by simp
qed

lemma posting_list_np_ex_9: "posting_list (postings tokenizer_np_ex) 9 = []"
  unfolding tokenizer_np_ex_def
  by (rule posting_list_unknown) (simp add: aliases_ex_def alias_ex_def)

lemma numberParser_np_ex: "numberParser tokenizer_np_ex = Some np_ex"
  by (simp add: tokenizer_np_ex_def numberParser_addItems tokenizer_new_def)

lemma ids_valid_np_ex: "ids_valid tokenizer_np_ex"
  unfolding tokenizer_np_ex_def by (rule ids_valid_addItems)

lemma number_edges_np_ex_9: "number_edges tokenizer_np_ex [20, 9] 1 = []"
  by (simp add: number_edges_def numberParser_np_ex np_ex_def)

lemma alias_edges_np_ex_9: "alias_edges tokenizer_np_ex (drop 1 [20, 9]) ([20, 9] ! 1) = Inr []"
  using alias_edges_valid [OF ids_valid_np_ex, of "[9]" 9]
  by (simp add: posting_list_np_ex_9)

lemma fcard_fset_of_list: "fcard (fset_of_list xs) = card (set xs)"
  by (simp add: fcard.rep_eq fset_of_list.rep_eq)

lemma number_edge_score:
  assumes len: "1 \<le> nm_length v" and idx: "index < length hashed"
  shows "number_edge hashed index v =
           \<lparr> e_score = Fin (of_nat (card (set (take (nm_length v) (drop index hashed))))),
             e_length = int (nm_length v), label = nm_value v, isNumber = True \<rparr>"
proof -
  define m where "m = take (nm_length v) (drop index hashed)"
  define d where "d = number_diff hashed index v"
  have d_match: "match d = m" and d_cost: "cost d = 0" and d_left: "leftmostA d = 0"
    and d_right: "rightmostA d = int (nm_length v) - 1"
    and d_common: "commonTerms d = fset_of_list m"
    by (simp_all add: d_def m_def number_diff_def Let_def)
  have mne: "m \<noteq> []"
    using len idx by (simp add: m_def)
  then have "0 < card (set m)"
    by (simp add: card_gt_0_iff)
  then have c1: "1 \<le> card (set m)" by simp
  have lm: "(of_nat (length m) :: rat) \<noteq> 0" using mne by simp
  have lv: "(of_nat (nm_length v) :: rat) \<noteq> 0" using len by simp
  have "base_score d =
          Fin ((of_int (int (nm_length v)) / of_int (int (nm_length v)))
               * (of_nat (card (set m)) / of_nat (length m))
               * (of_int (max (int (length m)) 0) / of_nat (length m))
               * of_nat (length m))"
    using base_score_finite [of d] mne len
    by (simp add: d_match d_cost d_left d_right d_common fcard_fset_of_list)
  also have "\<dots> = Fin (of_nat (card (set m)))"
    using lm lv by simp
  finally have base: "base_score d = Fin (of_nat (card (set m)))" .
  have cd: "commonDownstreamWords isNeverDownstreamTerm d = {||}"
    by (auto simp: commonDownstreamWords_def isNeverDownstreamTerm_def)
  have big: "\<not> (of_nat (card (set m)) :: rat) \<le> 1 / 100"
  proof -
    have "(1 :: rat) \<le> of_nat (card (set m))"
      using c1 by (metis of_nat_1 of_nat_le_iff)
    then show ?thesis by simp
  qed
  have "score hashed (match d) isNeverDownstreamTerm d =
          \<lparr> s_score = Fin (of_nat (card (set m))), s_length = int (nm_length v) \<rparr>"
    using c1 big mne
    by (simp add: score_def Let_def base cd fcard_fempty d_right d_common d_match
        fcard_fset_of_list)
  then show ?thesis
    by (simp add: number_edge_def Let_def d_def [symmetric] scored_edge_def m_def)
qed

lemma number_diff_two_hundred_two:
  "number_diff [20, 21, 20] 0 \<lparr> nm_value = 202, nm_length = 3 \<rparr> =
     \<lparr> match = [20, 21, 20], cost = 0, leftmostA = 0, rightmostA = 2, alignments = 3,
       commonTerms = {|20, 21|} \<rparr>"
  by (simp add: number_diff_def Let_def) auto

lemma posting_list_np_ex_number:
  "posting_list (postings tokenizer_np_ex) 20 = []"
  "posting_list (postings tokenizer_np_ex) 21 = []"
  unfolding tokenizer_np_ex_def
  by (rule posting_list_unknown, simp add: aliases_ex_def alias_ex_def)+

lemma number_edges_two_hundred_two:
  "number_edges tokenizer_np_ex [20, 21, 20] 0 =
     [\<lparr> e_score = Fin 1, e_length = 1, label = 2, isNumber = True \<rparr>,
      \<lparr> e_score = Fin 2, e_length = 2, label = 200, isNumber = True \<rparr>,
      \<lparr> e_score = Fin 2, e_length = 3, label = 202, isNumber = True \<rparr>]"
  "number_edges tokenizer_np_ex [20, 21, 20] 1 = []"
  "number_edges tokenizer_np_ex [20, 21, 20] 2 =
     [\<lparr> e_score = Fin 1, e_length = 1, label = 2, isNumber = True \<rparr>]"
proof -
  have "{20, 21, 20 :: hash} = {20, 21}" by auto
  then have s: "card {20, 21, 20 :: hash} = 2" by simp
  show "number_edges tokenizer_np_ex [20, 21, 20] 0 =
     [\<lparr> e_score = Fin 1, e_length = 1, label = 2, isNumber = True \<rparr>,
      \<lparr> e_score = Fin 2, e_length = 2, label = 200, isNumber = True \<rparr>,
      \<lparr> e_score = Fin 2, e_length = 3, label = 202, isNumber = True \<rparr>]"
    by (simp add: number_edges_def numberParser_np_ex np_ex_def number_edge_score s)
  show "number_edges tokenizer_np_ex [20, 21, 20] 1 = []"
    by (simp add: number_edges_def numberParser_np_ex np_ex_def)
  show "number_edges tokenizer_np_ex [20, 21, 20] 2 =
     [\<lparr> e_score = Fin 1, e_length = 1, label = 2, isNumber = True \<rparr>]"
    by (simp add: number_edges_def numberParser_np_ex np_ex_def number_edge_score)
qed

lemma edgeLists_two_hundred_two:
  "generateGraph_edgeLists tokenizer_np_ex [20, 21, 20] st =
     (Inr [[\<lparr> e_score = Fin 2, e_length = 2, label = 200, isNumber = True \<rparr>,
            \<lparr> e_score = Fin 2, e_length = 3, label = 202, isNumber = True \<rparr>,
            \<lparr> e_score = Fin 1, e_length = 1, label = 2, isNumber = True \<rparr>],
           [],
           [\<lparr> e_score = Fin 1, e_length = 1, label = 2, isNumber = True \<rparr>]],
      tokenizer_np_ex)"
proof -
  have en: "enumerate 0 [20, 21, 20 :: hash] = [(0, 20), (1, 21), (2, 20)]"
    by (simp add: enumerate_eq_zip upt_rec)
  have n1: "number_edges tokenizer_np_ex [20, 21, 20] (Suc 0) = []"
    using number_edges_two_hundred_two(2) by simp
  show ?thesis
    unfolding edgeLists_valid [OF ids_valid_np_ex] en
    by (simp add: posting_list_np_ex_number number_edges_two_hundred_two n1 sort_edges_def
        edge_compare_def)
qed

lemma edgeLists_two_unknown:
  "generateGraph_edgeLists tokenizer_np_ex [20, 9] st =
     (Inr [[\<lparr> e_score = Fin 1, e_length = 1, label = 2, isNumber = True \<rparr>], []],
      tokenizer_np_ex)"
proof -
  have en: "enumerate 0 [20, 9 :: hash] = [(0, 20), (1, 9)]"
    by (simp add: enumerate_eq_zip upt_rec)
  have n0: "number_edges tokenizer_np_ex [20, 9] 0 =
      [\<lparr> e_score = Fin 1, e_length = 1, label = 2, isNumber = True \<rparr>]"
    by (simp add: number_edges_def numberParser_np_ex np_ex_def number_edge_score)
  have n1: "number_edges tokenizer_np_ex [20, 9] (Suc 0) = []"
    using number_edges_np_ex_9 by simp
  show ?thesis
    unfolding edgeLists_valid [OF ids_valid_np_ex] en
    by (simp add: posting_list_np_ex_number posting_list_np_ex_9 n0 n1 sort_edges_def)
qed

lemma edgeLists_empty_position:
  assumes v: "ids_valid tk"
      and i: "i < length hashed"
      and a: "alias_edges tk (drop i hashed) (hashed ! i) = Inr []"
      and n: "number_edges tk hashed i = []"
  shows "\<exists>ls. generateGraph_edgeLists tk hashed st = (Inr ls, tk) \<and> length ls = length hashed
             \<and> ls ! i = []"
proof -
  have pl: "posting_list (postings tk) (hashed ! i) = []"
    using a alias_edges_valid [OF v, of "drop i hashed" "hashed ! i"] by simp
  have e: "enumerate 0 hashed ! i = (i, hashed ! i)"
    using i by (simp add: nth_enumerate_eq)
  show ?thesis
    unfolding edgeLists_valid [OF v]
    using i by (simp add: e pl n sort_edges_Nil)
qed

lemma full_path_unknown:
  assumes u: "\<forall>j<length g. unknown_edge \<in> set (g ! j)"
  shows "i \<le> length g \<Longrightarrow> n = length g - i \<Longrightarrow> full_path g i (replicate n unknown_edge)"
proof (induction n arbitrary: i)
  case 0
  then show ?case by simp
next
  case (Suc n)
  from Suc.prems have i: "i < length g" and n: "n = length g - Suc i" by simp_all
  have "full_path g (Suc i) (replicate n unknown_edge)"
    using Suc.IH [of "Suc i"] i n by simp
  with u i show ?case by (simp add: unknown_edge_def)
qed

lemma generateGraph_of_edgeLists:
  "generateGraph_edgeLists tk hashed st = (Inr ls, tk1) \<Longrightarrow>
     generateGraph tk hashed st = (Inr (DynamicGraph ls), tk1)"
  by (simp add: generateGraph_def)

lemma DynamicGraph_nth:
  "j < length ls \<Longrightarrow> DynamicGraph ls ! j = ls ! j @ [unknown_edge]"
  by (simp add: DynamicGraph_def)

lemma DynamicGraph_length: "length (DynamicGraph ls) = length ls"
  by (simp add: DynamicGraph_def)

lemma generateGraph_default_edge:
  assumes v: "ids_valid tk"
      and i: "i < length hashed"
      and a: "alias_edges tk (drop i hashed) (hashed ! i) = Inr []"
      and n: "number_edges tk hashed i = []"
  shows "\<exists>g. generateGraph tk hashed st = (Inr g, tk) \<and> length g = length hashed
             \<and> g ! i = [unknown_edge]
             \<and> (\<forall>j<length hashed. unknown_edge \<in> set (g ! j))
             \<and> full_path g 0 (replicate (length hashed) unknown_edge)"
proof -
  from edgeLists_empty_position [OF v i a n, of st]
  obtain ls where ls: "generateGraph_edgeLists tk hashed st = (Inr ls, tk)"
    and len: "length ls = length hashed" and e: "ls ! i = []" by blast
  let ?g = "DynamicGraph ls"
  have g: "generateGraph tk hashed st = (Inr ?g, tk)"
    using ls by (rule generateGraph_of_edgeLists)
  have gl: "length ?g = length hashed" by (simp add: DynamicGraph_length len)
  have gi: "?g ! i = [unknown_edge]"
    using i len e by (simp add: DynamicGraph_nth)
  have all: "\<forall>j<length ?g. unknown_edge \<in> set (?g ! j)"
    by (simp add: DynamicGraph_length DynamicGraph_nth)
  have "full_path ?g 0 (replicate (length ?g) unknown_edge)"
    using full_path_unknown [OF all, of 0 "length ?g"] by simp
  with g gl gi all show ?thesis by (metis (no_types))
qed

lemma generateGraph_two_unknown:
  "generateGraph tokenizer_np_ex [20, 9] st =
     (Inr [[\<lparr> e_score = Fin 1, e_length = 1, label = 2, isNumber = True \<rparr>, unknown_edge],
           [unknown_edge]],
      tokenizer_np_ex)"
  using generateGraph_of_edgeLists [OF edgeLists_two_unknown [of st]]
  by (simp add: DynamicGraph_def)

subsection \<open>The tokenizer is not changed\<close>

text \<open>
  C9. \<open>generateGraph\<close> leaves the tokenizer as it was, whatever the query and also
  when it throws: the aliases array, the postings lists, the frequencies and the
  texts of the fingerprints after the call are those before it. (The matchers and
  the number parser are taken as functions: they return a result and write nothing.)
\<close>

theorem generateGraph_frame:
  "snd (generateGraph tk hashed st) = tk
   \<and> aliases (snd (generateGraph tk hashed st)) = aliases tk
   \<and> postings (snd (generateGraph tk hashed st)) = postings tk
   \<and> hashToFrequency (snd (generateGraph tk hashed st)) = hashToFrequency tk
   \<and> hashToText (snd (generateGraph tk hashed st)) = hashToText tk"
proof -
  have "snd (generateGraph_edgeLists tk hashed st) = tk"
    by (simp add: generateGraph_edgeLists_def generateGraph_loop_frame)
  then have "snd (generateGraph tk hashed st) = tk"
    by (cases "generateGraph_edgeLists tk hashed st")
      (auto simp: generateGraph_def split: sum.splits)
  then show ?thesis by simp
qed

theorem generateGraph_frame_witness:
  "snd (generateGraph tokenizer_np_ex [20, 21, 20] [''two'', ''hundr'', ''two'']) = tokenizer_np_ex"
  using generateGraph_frame [of tokenizer_np_ex "[20, 21, 20]" "[''two'', ''hundr'', ''two'']"]
  by blast

subsection \<open>A position without edges\<close>

text \<open>
  C3. At a position where the postings give no alias edge and the number parser no
  number edge, the edge list built for the position is empty, and the graph that
  \<open>generateGraph\<close> returns offers there a single edge: the unknown edge with score
  0, length 1 and label \<open>-1\<close>. Every position of the graph offers the unknown edge,
  so the unknown edges alone are a walk from the first position to the end of the
  query. With valid ids \<open>generateGraph\<close> does not throw, and the graph has one
  position for each term of the query.
\<close>

theorem generateGraph_unknown_edge:
  assumes v: "ids_valid tk"
      and i: "i < length hashed"
      and a: "alias_edges tk (drop i hashed) (hashed ! i) = Inr []"
      and n: "number_edges tk hashed i = []"
  shows "\<exists>g. generateGraph tk hashed st = (Inr g, tk) \<and> length g = length hashed
             \<and> g ! i = [unknown_edge]
             \<and> (\<forall>j<length hashed. unknown_edge \<in> set (g ! j))
             \<and> full_path g 0 (replicate (length hashed) unknown_edge)"
  using v i a n by (rule generateGraph_default_edge)

theorem generateGraph_unknown_edge_witness:
  "ids_valid tokenizer_np_ex \<and> (1::nat) < length [20, 9 :: hash]
   \<and> alias_edges tokenizer_np_ex (drop 1 [20, 9]) ([20, 9] ! 1) = Inr []
   \<and> number_edges tokenizer_np_ex [20, 9] 1 = []
   \<and> generateGraph tokenizer_np_ex [20, 9] [''two'', ''xyz''] =
        (Inr [[\<lparr> e_score = Fin 1, e_length = 1, label = 2, isNumber = True \<rparr>, unknown_edge],
              [unknown_edge]],
         tokenizer_np_ex)
   \<and> full_path [[\<lparr> e_score = Fin 1, e_length = 1, label = 2, isNumber = True \<rparr>, unknown_edge],
                 [unknown_edge]] 0 [unknown_edge, unknown_edge]"
proof -
  have l: "(1::nat) < length [20, 9 :: hash]" by simp
  from generateGraph_unknown_edge [OF ids_valid_np_ex l alias_edges_np_ex_9 number_edges_np_ex_9,
      of "[''two'', ''xyz'']"]
  obtain g where g: "generateGraph tokenizer_np_ex [20, 9] [''two'', ''xyz''] = (Inr g, tokenizer_np_ex)"
    and p: "full_path g 0 (replicate (length [20, 9 :: hash]) unknown_edge)" by blast
  from g have "g = [[\<lparr> e_score = Fin 1, e_length = 1, label = 2, isNumber = True \<rparr>, unknown_edge],
              [unknown_edge]]"
    by (simp add: generateGraph_two_unknown)
  with g p ids_valid_np_ex l alias_edges_np_ex_9 number_edges_np_ex_9 show ?thesis
    by (simp add: numeral_2_eq_2)
qed

subsection \<open>Number edges\<close>

text \<open>
  C4, at the number phrase "two hundred two" (fingerprints 20, 21, 20). The edge has
  the label 202 and the length 3 and is scored from the synthetic result with cost
  0 and all three terms matched, but \<open>commonTerms\<close> is a set and holds two
  fingerprints: commonFactor is \<open>2/3\<close> and the score is 2, not \<open>|match| = 3\<close>. By
  \<open>number_edge_score\<close> the score of a number edge is the number of distinct
  fingerprints of the match, which is \<open>|match|\<close> only when no term is repeated. In
  the edge list of position 0 the edge for 202 comes after the shorter edge for
  200, which has the same score.
\<close>

theorem number_edge_repeated_term:
  "parse np_ex (drop 0 [20, 21, 20]) ! 2 = \<lparr> nm_value = 202, nm_length = 3 \<rparr>
   \<and> match (number_diff [20, 21, 20] 0 \<lparr> nm_value = 202, nm_length = 3 \<rparr>) = [20, 21, 20]
   \<and> commonFactor (number_diff [20, 21, 20] 0 \<lparr> nm_value = 202, nm_length = 3 \<rparr>) = Fin (2 / 3)
   \<and> number_edge [20, 21, 20] 0 \<lparr> nm_value = 202, nm_length = 3 \<rparr> =
        \<lparr> e_score = Fin 2, e_length = 3, label = 202, isNumber = True \<rparr>
   \<and> fst (generateGraph_edgeLists tokenizer_np_ex [20, 21, 20] [''two'', ''hundr'', ''two'']) =
        Inr [[\<lparr> e_score = Fin 2, e_length = 2, label = 200, isNumber = True \<rparr>,
              \<lparr> e_score = Fin 2, e_length = 3, label = 202, isNumber = True \<rparr>,
              \<lparr> e_score = Fin 1, e_length = 1, label = 2, isNumber = True \<rparr>],
             [],
             [\<lparr> e_score = Fin 1, e_length = 1, label = 2, isNumber = True \<rparr>]]"
proof -
  have p: "parse np_ex (drop 0 [20, 21, 20]) ! 2 = \<lparr> nm_value = 202, nm_length = 3 \<rparr>"
    by (simp add: np_ex_def)
  have "set [20, 21, 20 :: hash] = {20, 21}" by auto
  then have c: "card (set [20, 21, 20 :: hash]) = 2" by simp
  have cf: "commonFactor (number_diff [20, 21, 20] 0 \<lparr> nm_value = 202, nm_length = 3 \<rparr>)
              = Fin (2 / 3)"
    by (simp add: number_diff_two_hundred_two commonFactor_def js_div_def fcard_finsert_if
        fcard_fempty)
  have e: "number_edge [20, 21, 20] 0 \<lparr> nm_value = 202, nm_length = 3 \<rparr> =
        \<lparr> e_score = Fin 2, e_length = 3, label = 202, isNumber = True \<rparr>"
    using number_edge_score [of "\<lparr> nm_value = 202, nm_length = 3 \<rparr>" 0 "[20, 21, 20]"] c
    by simp
  from p cf e show ?thesis
    by (simp add: number_diff_two_hundred_two edgeLists_two_hundred_two)
qed

section \<open>Properties of the lexicon\<close>

lemma foldl_finsert: "foldl (\<lambda>own h. finsert h own) S hs = S |\<union>| fset_of_list hs"
  by (induction hs arbitrary: S) auto

lemma domain_add_alias_fields:
  "tokenizerAliases (domain_add_alias tm d a) = tokenizerAliases d @ [hash_alias tm a]"
  "ownTerms (domain_add_alias tm d a) = ownTerms d |\<union>| fset_of_list (hashes (hash_alias tm a))"
  "d_termModel (domain_add_alias tm d a) = d_termModel d"
  "forIngestion (domain_add_alias tm d a) = forIngestion d"
  "downstreamTerms (domain_add_alias tm d a) = downstreamTerms d"
  by (simp_all add: domain_add_alias_def Let_def foldl_finsert)

lemma domain_loop_fields:
  "tokenizerAliases (foldl (domain_add_alias tm) d as) = tokenizerAliases d @ map (hash_alias tm) as"
  "ownTerms (foldl (domain_add_alias tm) d as) = ownTerms d |\<union>| alias_hashes tm as"
  "d_termModel (foldl (domain_add_alias tm) d as) = d_termModel d"
  "forIngestion (foldl (domain_add_alias tm) d as) = forIngestion d"
  "downstreamTerms (foldl (domain_add_alias tm) d as) = downstreamTerms d"
  by (induction as arbitrary: d)
    (auto simp: domain_add_alias_fields alias_hashes_def)

lemma domain_new_fields:
  "tokenizerAliases (domain_new as tm fi) = map (hash_alias tm) as"
  "ownTerms (domain_new as tm fi) = alias_hashes tm as"
  "d_termModel (domain_new as tm fi) = tm"
  "forIngestion (domain_new as tm fi) = fi"
  "downstreamTerms (domain_new as tm fi) = {||}"
  by (simp_all add: domain_new_def domain_loop_fields)

lemma split_ws_empty: "split_ws [] = [[]]"
  by (simp add: split_ws.simps)

lemma hash_alias_empty_text:
  "text a = [] \<Longrightarrow>
     terms (hash_alias tm a) = [[]] \<and> stemmed (hash_alias tm a) = [stem tm []]
     \<and> hashes (hash_alias tm a) = [hashTerm tm (stem tm [])]
     \<and> text (hash_alias tm a) = []"
  by (simp add: hash_alias_def Let_def split_ws_empty)

lemma downstream_fold:
  "h |\<in>| foldl (\<lambda>acc entry. if fst entry \<noteq> self then acc |\<union>| ownTerms (snd entry) else acc)
            S (enumerate n ds)
   \<longleftrightarrow> h |\<in>| S \<or> (\<exists>j<length ds. n + j \<noteq> self \<and> h |\<in>| ownTerms (ds ! j))"
proof (induction ds arbitrary: n S)
  case Nil
  show ?case by simp
next
  case (Cons d ds)
  have ex: "(\<exists>j<length (d # ds). n + j \<noteq> self \<and> h |\<in>| ownTerms ((d # ds) ! j))
        \<longleftrightarrow> (n \<noteq> self \<and> h |\<in>| ownTerms d)
            \<or> (\<exists>j<length ds. Suc n + j \<noteq> self \<and> h |\<in>| ownTerms (ds ! j))"
  proof
    assume "\<exists>j<length (d # ds). n + j \<noteq> self \<and> h |\<in>| ownTerms ((d # ds) ! j)"
    then obtain j where j: "j < length (d # ds)" "n + j \<noteq> self" "h |\<in>| ownTerms ((d # ds) ! j)"
      by blast
    show "(n \<noteq> self \<and> h |\<in>| ownTerms d)
            \<or> (\<exists>j<length ds. Suc n + j \<noteq> self \<and> h |\<in>| ownTerms (ds ! j))"
    proof (cases j)
      case 0
      with j show ?thesis by simp
    next
      case (Suc k)
      with j have "k < length ds" "Suc n + k \<noteq> self" "h |\<in>| ownTerms (ds ! k)" by simp_all
      then show ?thesis by blast
    qed
  next
    assume "(n \<noteq> self \<and> h |\<in>| ownTerms d)
            \<or> (\<exists>j<length ds. Suc n + j \<noteq> self \<and> h |\<in>| ownTerms (ds ! j))"
    then show "\<exists>j<length (d # ds). n + j \<noteq> self \<and> h |\<in>| ownTerms ((d # ds) ! j)"
    proof
      assume "n \<noteq> self \<and> h |\<in>| ownTerms d"
      then have "0 < length (d # ds) \<and> n + 0 \<noteq> self \<and> h |\<in>| ownTerms ((d # ds) ! 0)" by simp
      then show ?thesis by blast
    next
      assume "\<exists>j<length ds. Suc n + j \<noteq> self \<and> h |\<in>| ownTerms (ds ! j)"
      then obtain k where "k < length ds" "Suc n + k \<noteq> self" "h |\<in>| ownTerms (ds ! k)" by blast
      then have "Suc k < length (d # ds) \<and> n + Suc k \<noteq> self \<and> h |\<in>| ownTerms ((d # ds) ! Suc k)"
        by simp
      then show ?thesis by blast
    qed
  qed
  show ?case
    unfolding ex using Cons.IH [where n = "Suc n"] by (auto simp: enumerate_simps)
qed

lemma addDownstreamTerms_fields:
  "ownTerms (addDownstreamTerms self d nt ds) = ownTerms d"
  "d_termModel (addDownstreamTerms self d nt ds) = d_termModel d"
  "forIngestion (addDownstreamTerms self d nt ds) = forIngestion d"
  "tokenizerAliases (addDownstreamTerms self d nt ds) = tokenizerAliases d"
  by (simp_all add: addDownstreamTerms_def)

lemma addDownstreamTerms_member:
  "h |\<in>| downstreamTerms (addDownstreamTerms self d nt ds) \<longleftrightarrow>
     (if forIngestion d
      then h |\<in>| nt \<or> (\<exists>j<length ds. j \<noteq> self \<and> h |\<in>| ownTerms (ds ! j))
      else h |\<in>| downstreamTerms d)"
  using downstream_fold [of h self nt 0 ds]
  by (simp add: addDownstreamTerms_def)

lemma ingest_loop_shape:
  "length (domains (fst (lexicon_ingest_loop lx tk is))) = length (domains lx)
   \<and> lx_numberParser (fst (lexicon_ingest_loop lx tk is)) = lx_numberParser lx
   \<and> lx_termModel (fst (lexicon_ingest_loop lx tk is)) = lx_termModel lx
   \<and> (\<forall>j<length (domains lx).
         ownTerms (domains (fst (lexicon_ingest_loop lx tk is)) ! j) = ownTerms (domains lx ! j)
       \<and> d_termModel (domains (fst (lexicon_ingest_loop lx tk is)) ! j)
           = d_termModel (domains lx ! j)
       \<and> forIngestion (domains (fst (lexicon_ingest_loop lx tk is)) ! j)
           = forIngestion (domains lx ! j))"
proof (induction "is" arbitrary: lx tk)
  case Nil
  show ?case by simp
next
  case (Cons i rest)
  define d where "d = addDownstreamTerms i (domains lx ! i)
                (ownHashedTerms (lx_numberParser lx)) (domains lx)"
  define lx1 where "lx1 = lx\<lparr> domains := (domains lx)[i := d] \<rparr>"
  define tk1 where "tk1 = domain_ingest d tk"
  have step: "lexicon_ingest_loop lx tk (i # rest) = lexicon_ingest_loop lx1 tk1 rest"
    by (simp add: d_def lx1_def tk1_def Let_def)
  have len1: "length (domains lx1) = length (domains lx)" by (simp add: lx1_def)
  have np1: "lx_numberParser lx1 = lx_numberParser lx" "lx_termModel lx1 = lx_termModel lx"
    by (simp_all add: lx1_def)
  have f1: "ownTerms (domains lx1 ! j) = ownTerms (domains lx ! j)
       \<and> d_termModel (domains lx1 ! j) = d_termModel (domains lx ! j)
       \<and> forIngestion (domains lx1 ! j) = forIngestion (domains lx ! j)"
    if "j < length (domains lx)" for j
    using that by (cases "j = i") (simp_all add: lx1_def d_def addDownstreamTerms_fields)
  from Cons.IH [of lx1 tk1] len1 np1 f1 show ?case
    unfolding step by simp
qed

lemma ingest_loop_downstream:
  assumes j: "j < length (domains lx)"
  shows "h |\<in>| downstreamTerms (domains (fst (lexicon_ingest_loop lx tk is)) ! j) \<longleftrightarrow>
     (if j \<in> set is \<and> forIngestion (domains lx ! j)
      then h |\<in>| ownHashedTerms (lx_numberParser lx)
           \<or> (\<exists>k<length (domains lx). k \<noteq> j \<and> h |\<in>| ownTerms (domains lx ! k))
      else h |\<in>| downstreamTerms (domains lx ! j))"
  using j
proof (induction "is" arbitrary: lx tk)
  case Nil
  show ?case by simp
next
  case (Cons i rest)
  define d where "d = addDownstreamTerms i (domains lx ! i)
                (ownHashedTerms (lx_numberParser lx)) (domains lx)"
  define lx1 where "lx1 = lx\<lparr> domains := (domains lx)[i := d] \<rparr>"
  define tk1 where "tk1 = domain_ingest d tk"
  define T where "T \<longleftrightarrow> h |\<in>| ownHashedTerms (lx_numberParser lx)
           \<or> (\<exists>k<length (domains lx). k \<noteq> j \<and> h |\<in>| ownTerms (domains lx ! k))"
  have step: "lexicon_ingest_loop lx tk (i # rest) = lexicon_ingest_loop lx1 tk1 rest"
    by (simp add: d_def lx1_def tk1_def Let_def)
  have len1: "length (domains lx1) = length (domains lx)" by (simp add: lx1_def)
  have np1: "lx_numberParser lx1 = lx_numberParser lx" by (simp add: lx1_def)
  have own1: "ownTerms (domains lx1 ! k) = ownTerms (domains lx ! k)"
    if "k < length (domains lx)" for k
    using that by (cases "k = i") (simp_all add: lx1_def d_def addDownstreamTerms_fields)
  have fi1: "forIngestion (domains lx1 ! j) = forIngestion (domains lx ! j)"
    using Cons.prems by (cases "j = i") (simp_all add: lx1_def d_def addDownstreamTerms_fields)
  have T1: "(h |\<in>| ownHashedTerms (lx_numberParser lx1)
           \<or> (\<exists>k<length (domains lx1). k \<noteq> j \<and> h |\<in>| ownTerms (domains lx1 ! k))) \<longleftrightarrow> T"
    unfolding T_def np1 len1 using own1 by auto
  have ds1: "h |\<in>| downstreamTerms (domains lx1 ! j) \<longleftrightarrow>
      (if j = i \<and> forIngestion (domains lx ! j) then T
       else h |\<in>| downstreamTerms (domains lx ! j))"
  proof (cases "j = i")
    case True
    with Cons.prems have "domains lx1 ! j = d" by (simp add: lx1_def)
    then show ?thesis
      using True addDownstreamTerms_member [of h i "domains lx ! i"
          "ownHashedTerms (lx_numberParser lx)" "domains lx"]
      by (simp add: d_def T_def)
  next
    case False
    then show ?thesis by (simp add: lx1_def)
  qed
  have j1: "j < length (domains lx1)" using Cons.prems len1 by simp
  have "h |\<in>| downstreamTerms (domains (fst (lexicon_ingest_loop lx1 tk1 rest)) ! j) \<longleftrightarrow>
     (if j \<in> set rest \<and> forIngestion (domains lx ! j) then T
      else h |\<in>| downstreamTerms (domains lx1 ! j))"
    using Cons.IH [OF j1, of tk1] unfolding T1 fi1 .
  then show ?case
    unfolding step T_def [symmetric] ds1 by auto
qed

lemma addDomain_fields:
  "domains (addDomain lx as fi) = domains lx @ [domain_new as (lx_termModel lx) fi]"
  "lx_termModel (addDomain lx as fi) = lx_termModel lx"
  "lx_numberParser (addDomain lx as fi) = lx_numberParser lx"
  by (simp_all add: addDomain_def)

lemma addDomains_fields:
  "domains (addDomains lx specs) =
     domains lx @ map (\<lambda>spec. domain_new (fst spec) (lx_termModel lx) (snd spec)) specs
   \<and> lx_termModel (addDomains lx specs) = lx_termModel lx
   \<and> lx_numberParser (addDomains lx specs) = lx_numberParser lx"
  unfolding addDomains_def
  by (induction specs arbitrary: lx) (simp_all add: addDomain_fields)

lemma split_ws_ex:
  "split_ws ''a bb'' = [''a'', ''bb'']"
  "split_ws ''ccc bb'' = [''ccc'', ''bb'']"
  by (simp_all add: split_ws.simps is_ws_def)

lemma alias_hashes_ex:
  "alias_hashes tm_ex (fst (specs_ex ! 0)) = {|1, 2|}"
  "alias_hashes tm_ex (fst (specs_ex ! 1)) = {|3, 2|}"
  by (simp_all add: alias_hashes_def specs_ex_def hash_alias_def Let_def split_ws_ex tm_ex_def)

subsection \<open>Downstream terms\<close>

text \<open>
  C5. After \<open>Lexicon.ingest\<close> on a lexicon built by \<open>addDomain\<close> calls, for a
  domain \<open>D\<close> added for ingestion and every fingerprint \<open>h\<close>: \<open>D\<close>'s
  \<open>isDownstreamTerm\<close> holds of \<open>h\<close> exactly when the term model tags \<open>h\<close> as a
  token hash or a number hash, or \<open>h\<close> is one of the number parser's own hashed
  terms, or \<open>h\<close> is an own term of a domain at another place of the lexicon. The
  own terms of a domain are the fingerprints of its aliases, so a fingerprint of
  \<open>D\<close>'s own aliases is downstream for \<open>D\<close> when another domain has it too.
\<close>

theorem ingest_downstream:
  assumes i: "i < length specs" and fi: "snd (specs ! i)"
  shows "(domain_isDownstreamTerm
            (domains (fst (lexicon_ingest (addDomains (lexicon_new tm np) specs) tk)) ! i) h
          \<longleftrightarrow> isTokenHash tm h \<or> isNumberHash tm h \<or> h |\<in>| ownHashedTerms np
              \<or> (\<exists>j<length specs. j \<noteq> i \<and> h |\<in>| alias_hashes tm (fst (specs ! j))))
       \<and> (\<forall>j<length specs.
             ownTerms (domains (fst (lexicon_ingest (addDomains (lexicon_new tm np) specs) tk)) ! j)
               = alias_hashes tm (fst (specs ! j)))"
proof -
  define lx where "lx = addDomains (lexicon_new tm np) specs"
  define lx' where "lx' = fst (lexicon_ingest lx tk)"
  have ds: "domains lx = map (\<lambda>spec. domain_new (fst spec) tm (snd spec)) specs"
    and np: "lx_numberParser lx = np"
    using addDomains_fields [of "lexicon_new tm np" specs]
    by (simp_all add: lx_def lexicon_new_def)
  have len: "length (domains lx) = length specs" by (simp add: ds)
  have own: "ownTerms (domains lx ! j) = alias_hashes tm (fst (specs ! j))"
    and tmj: "d_termModel (domains lx ! j) = tm"
    and fij: "forIngestion (domains lx ! j) = snd (specs ! j)"
    if "j < length specs" for j
    using that by (simp_all add: ds domain_new_fields)
  note shape = ingest_loop_shape [of lx tk "[0..<length (domains lx)]",
      folded lexicon_ingest_def, folded lx'_def]
  have own': "ownTerms (domains lx' ! j) = alias_hashes tm (fst (specs ! j))"
    if "j < length specs" for j
    using shape that own [OF that] by (simp add: len)
  have tm': "d_termModel (domains lx' ! i) = tm"
    using shape i tmj [OF i] by (simp add: len)
  have "h |\<in>| downstreamTerms (domains lx' ! i) \<longleftrightarrow>
          h |\<in>| ownHashedTerms np
          \<or> (\<exists>k<length specs. k \<noteq> i \<and> h |\<in>| ownTerms (domains lx ! k))"
    using ingest_loop_downstream [of i lx h tk "[0..<length (domains lx)]",
        folded lexicon_ingest_def, folded lx'_def] i fi fij [OF i]
    by (simp add: len np)
  also have "\<dots> \<longleftrightarrow> h |\<in>| ownHashedTerms np
          \<or> (\<exists>k<length specs. k \<noteq> i \<and> h |\<in>| alias_hashes tm (fst (specs ! k)))"
    using own by auto
  finally have down: "h |\<in>| downstreamTerms (domains lx' ! i) \<longleftrightarrow>
          h |\<in>| ownHashedTerms np
          \<or> (\<exists>k<length specs. k \<noteq> i \<and> h |\<in>| alias_hashes tm (fst (specs ! k)))" .
  show ?thesis
    unfolding lx_def [symmetric] lx'_def [symmetric]
    using down own' by (simp add: domain_isDownstreamTerm_def tm')
qed

theorem ingest_downstream_witness:
  "(0::nat) < length specs_ex \<and> snd (specs_ex ! 0)
   \<and> 2 |\<in>| alias_hashes tm_ex (fst (specs_ex ! 0))
   \<and> domain_isDownstreamTerm
        (domains (fst (lexicon_ingest (addDomains (lexicon_new tm_ex np_ex) specs_ex)
                         (tokenizer_new tm_ex (Some np_ex) False))) ! 0) 2
   \<and> \<not> domain_isDownstreamTerm
        (domains (fst (lexicon_ingest (addDomains (lexicon_new tm_ex np_ex) specs_ex)
                         (tokenizer_new tm_ex (Some np_ex) False))) ! 0) 1"
proof -
  have l: "(0::nat) < length specs_ex" by (simp add: specs_ex_def)
  have f: "snd (specs_ex ! 0)" by (simp add: specs_ex_def)
  note t = ingest_downstream [OF l f, of tm_ex np_ex "tokenizer_new tm_ex (Some np_ex) False",
      THEN conjunct1]
  have len: "length specs_ex = 2" by (simp add: specs_ex_def)
  have two: "\<exists>j<length specs_ex. j \<noteq> 0 \<and> 2 |\<in>| alias_hashes tm_ex (fst (specs_ex ! j))"
  proof (intro exI conjI)
    show "(1::nat) < length specs_ex" by (simp add: len)
    show "(1::nat) \<noteq> 0" by simp
    show "2 |\<in>| alias_hashes tm_ex (fst (specs_ex ! 1))"
      unfolding alias_hashes_ex by simp
  qed
  have one: "\<not> (\<exists>j<length specs_ex. j \<noteq> 0 \<and> 1 |\<in>| alias_hashes tm_ex (fst (specs_ex ! j)))"
  proof
    assume "\<exists>j<length specs_ex. j \<noteq> 0 \<and> 1 |\<in>| alias_hashes tm_ex (fst (specs_ex ! j))"
    then obtain j where "j < 2" "j \<noteq> 0" "1 |\<in>| alias_hashes tm_ex (fst (specs_ex ! j))"
      unfolding len by blast
    moreover from this have "j = 1" by simp
    ultimately have "1 |\<in>| alias_hashes tm_ex (fst (specs_ex ! 1))" by simp
    then show False unfolding alias_hashes_ex by simp
  qed
  have d2: "domain_isDownstreamTerm
        (domains (fst (lexicon_ingest (addDomains (lexicon_new tm_ex np_ex) specs_ex)
                         (tokenizer_new tm_ex (Some np_ex) False))) ! 0) 2"
    using t [of 2] two by blast
  have d1: "\<not> domain_isDownstreamTerm
        (domains (fst (lexicon_ingest (addDomains (lexicon_new tm_ex np_ex) specs_ex)
                         (tokenizer_new tm_ex (Some np_ex) False))) ! 0) 1"
    using t [of 1] one by (simp add: tm_ex_def np_ex_def)
  from l f d2 d1 show ?thesis by (simp add: alias_hashes_ex)
qed

subsection \<open>An alias with the empty text\<close>

text \<open>
  C8, as the code has it. \<open>Lexicon.addDomain\<close> has no failure path and rejects
  nothing: the new domain holds one entry for every alias it was given, in order.
  An alias with the empty text is registered with the single empty term (the
  result of \<open>''.split(/\s+/)\<close>), its stem and its fingerprint, and the fingerprint
  joins the domain's own terms.
\<close>

theorem addDomain_empty_text:
  "domains (addDomain lx as fi) = domains lx @ [domain_new as (lx_termModel lx) fi]
   \<and> tokenizerAliases (domain_new as tm fi) = map (hash_alias tm) as
   \<and> length (tokenizerAliases (domain_new as tm fi)) = length as
   \<and> (text a = [] \<longrightarrow>
        terms (hash_alias tm a) = [[]] \<and> stemmed (hash_alias tm a) = [stem tm []]
        \<and> hashes (hash_alias tm a) = [hashTerm tm (stem tm [])]
        \<and> (a \<in> set as \<longrightarrow> hashTerm tm (stem tm []) |\<in>| ownTerms (domain_new as tm fi)))"
proof -
  have own: "hashTerm tm (stem tm []) |\<in>| ownTerms (domain_new as tm fi)"
    if "text a = []" "a \<in> set as"
  proof -
    from that(1) have "hashTerm tm (stem tm []) \<in> set (hashes (hash_alias tm a))"
      by (simp add: hash_alias_empty_text)
    with that(2) show ?thesis
      by (auto simp: domain_new_fields alias_hashes_def fset_of_list_elem)
  qed
  then show ?thesis
    by (simp add: addDomain_fields domain_new_fields hash_alias_empty_text)
qed

theorem addDomain_empty_text_witness:
  "text alias_empty_ex = [] \<and> alias_empty_ex \<in> set [alias_empty_ex]
   \<and> length (tokenizerAliases (domain_new [alias_empty_ex] tm_ex True)) = 1
   \<and> terms (hash_alias tm_ex alias_empty_ex) = [[]]
   \<and> hashTerm tm_ex (stem tm_ex []) |\<in>| ownTerms (domain_new [alias_empty_ex] tm_ex True)"
  using addDomain_empty_text [of "lexicon_new tm_ex np_ex" "[alias_empty_ex]" True tm_ex
      alias_empty_ex]
  by (simp add: alias_empty_ex_def)

text \<open>
  The alias with the empty text is in the domain's alias list after \<open>addDomain\<close>,
  and in the tokenizer's aliases after \<open>Lexicon.ingest\<close>.
\<close>

theorem addDomain_empty_text_counterexample:
  "text alias_empty_ex = []
   \<and> map terms (tokenizerAliases
        (last (domains (addDomain (lexicon_new tm_ex np_ex) [alias_empty_ex] True)))) = [[[]]]
   \<and> map hashes (tokenizerAliases
        (last (domains (addDomain (lexicon_new tm_ex np_ex) [alias_empty_ex] True)))) = [[0]]
   \<and> map text (aliases (snd (lexicon_ingest
        (addDomain (lexicon_new tm_ex np_ex) [alias_empty_ex] True)
        (tokenizer_new tm_ex (Some np_ex) False)))) = [[]]"
proof -
  have t: "text alias_empty_ex = []" by (simp add: alias_empty_ex_def)
  have d: "domains (addDomain (lexicon_new tm_ex np_ex) [alias_empty_ex] True)
             = [domain_new [alias_empty_ex] tm_ex True]"
    by (simp add: addDomain_fields lexicon_new_def)
  have ha: "hash_alias tm_ex alias_empty_ex =
      \<lparr> token = ''nothing'', text = [], matcher = matcher_ex,
        terms = [[]], stemmed = [[]], hashes = [0] \<rparr>"
    by (simp add: hash_alias_def Let_def alias_empty_ex_def split_ws_empty tm_ex_def)
  have ta: "tokenizerAliases (domain_new [alias_empty_ex] tm_ex True)
      = [\<lparr> token = ''nothing'', text = [], matcher = matcher_ex,
        terms = [[]], stemmed = [[]], hashes = [0] \<rparr>]"
    by (simp add: domain_new_fields ha)
  have ing: "map text (aliases (snd (lexicon_ingest
        (addDomain (lexicon_new tm_ex np_ex) [alias_empty_ex] True)
        (tokenizer_new tm_ex (Some np_ex) False)))) = [[]]"
    by (simp add: lexicon_ingest_def d Let_def domain_ingest_def addDownstreamTerms_fields ha
        addItem_aliases attach_closure_def tokenizer_new_def domain_new_fields)
  from t ing show ?thesis by (simp add: d ta)
qed

end
